theory Spec2Isabelle
  imports Complex_Main
begin

section \<open>Pytheas: rule scoring and table extraction\<close>

text \<open>
  A shallow embedding of the scoring and table-extraction core of
  \<^verbatim>\<open>pytheas/pytheas.py\<close>. Python floats are modelled as \<open>real\<close> (rounding is
  not modelled), Python dictionaries as maps, lists as lists, and every
  \<^verbatim>\<open>KeyError\<close> a dictionary lookup can raise as the \<open>Inl\<close> branch of a sum.
\<close>

subsection \<open>Rule catalogue and errors\<close>

datatype error = KeyError | IndexError

text \<open>One catalogue entry: \<^verbatim>\<open>{"weight": number|null, ...}\<close>. Only the weight is read
  by the scorer.\<close>

record rule =
  weight :: "real option"

type_synonym catalogue = "string \<rightharpoonup> rule"

subsection \<open>\<^verbatim>\<open>max_score\<close>\<close>

text \<open>
  The loop of \<^verbatim>\<open>max_score\<close>: for every event, \<^verbatim>\<open>unit_class_fuzzy_rules[event]\<close>
  (a \<^verbatim>\<open>KeyError\<close> when the event is not in the catalogue); the pair
  \<^verbatim>\<open>(event, weight)\<close> is appended when the weight is not \<^verbatim>\<open>None\<close> and
  \<^verbatim>\<open>>= weight_lower_bound\<close>.
\<close>

fun event_score :: "string list \<Rightarrow> catalogue \<Rightarrow> real \<Rightarrow> error + (string \<times> real) list" where
  "event_score [] R lb = Inr []"
| "event_score (e # es) R lb =
     (case R e of
        None \<Rightarrow> Inl KeyError
      | Some r \<Rightarrow>
         (case event_score es R lb of
            Inl err \<Rightarrow> Inl err
          | Inr rest \<Rightarrow>
             (case weight r of
                None \<Rightarrow> Inr rest
              | Some w \<Rightarrow> if w \<ge> lb then Inr ((e, w) # rest) else Inr rest)))"

text \<open>
  \<^verbatim>\<open>event_score.sort(key=lambda x: x[1], reverse=True); return event_score[0][1]\<close>:
  a stable sort by descending weight is a stable sort by the negated weight.
\<close>

definition max_score :: "string list \<Rightarrow> catalogue \<Rightarrow> real \<Rightarrow> error + real" where
  "max_score events R lb =
     (if length events > 0 then
        (case event_score events R lb of
           Inl err \<Rightarrow> Inl err
         | Inr es \<Rightarrow>
            if length es > 0 then Inr (snd (hd (sort_key (\<lambda>x. - snd x) es)))
            else Inr 0)
      else Inr 0)"

subsection \<open>\<^verbatim>\<open>probabilistic_sum\<close>\<close>

text \<open>
  \<^verbatim>\<open>score_counts = {x: line_scores.count(x) for x in line_scores}\<close>: the keys are the
  distinct scores in order of first occurrence, each with its number of occurrences.
\<close>

definition score_counts :: "real list \<Rightarrow> (real \<times> nat) list" where
  "score_counts line_scores =
     map (\<lambda>x. (x, count_list line_scores x)) (rev (remdups (rev line_scores)))"

definition probabilistic_sum :: "real list \<Rightarrow> real" where
  "probabilistic_sum line_scores =
     (if length line_scores > 0 then
        1 - prod_list (map (\<lambda>(score, count). (1 - score) ^ count) (score_counts line_scores))
      else 0)"

subsection \<open>Inputs of \<^verbatim>\<open>get_class_confidences\<close>\<close>

text \<open>
  \<^verbatim>\<open>data_rules_fired[row][column]\<close> holds the fired cell rules (\<^verbatim>\<open>agreements\<close>), the
  \<^verbatim>\<open>summary_strength\<close> of the cell's context window and the \<^verbatim>\<open>null_equivalent\<close> and
  \<^verbatim>\<open>aggregate\<close> flags; \<^verbatim>\<open>data_rules_fired[row]["line"]\<close> holds the fired line rules.
  \<^verbatim>\<open>not_data_rules_fired\<close> has the same shape with \<^verbatim>\<open>disagreements\<close> and
  \<^verbatim>\<open>disagreement_summary_strength\<close>. A missing key is \<open>None\<close>.
\<close>

record data_cell =
  agreements :: "string list"
  summary_strength :: nat
  null_equivalent :: bool
  aggregate :: bool

record not_data_cell =
  disagreements :: "string list"
  disagreement_summary_strength :: nat

record data_row =
  data_cells :: "nat \<rightharpoonup> data_cell"
  data_line :: "string list option"

record not_data_row =
  not_data_cells :: "nat \<rightharpoonup> not_data_cell"
  not_data_line :: "string list option"

record fuzzy_rules =
  cell_data :: catalogue
  cell_not_data :: catalogue
  line_data :: catalogue
  line_not_data :: catalogue

record parameters =
  impute_nulls :: bool
  summary_population_factor :: bool
  weight_input :: string
  weight_lower_bound :: real
  not_data_weight_lower_bound :: real
  param_p :: real

definition bind_err :: "error + 'a \<Rightarrow> ('a \<Rightarrow> error + 'b) \<Rightarrow> error + 'b" where
  "bind_err m f = (case m of Inl e \<Rightarrow> Inl e | Inr x \<Rightarrow> f x)"

definition lookup :: "('k \<rightharpoonup> 'v) \<Rightarrow> 'k \<Rightarrow> error + 'v" where
  "lookup m k = (case m k of None \<Rightarrow> Inl KeyError | Some v \<Rightarrow> Inr v)"

fun sequence_err :: "(error + 'a) list \<Rightarrow> error + 'a list" where
  "sequence_err [] = Inr []"
| "sequence_err (m # ms) =
     bind_err m (\<lambda>x. bind_err (sequence_err ms) (\<lambda>xs. Inr (x # xs)))"

subsection \<open>Null imputation (\<^verbatim>\<open>get_class_confidences\<close>, the two \<^verbatim>\<open>if\<close>s on the cell)\<close>

text \<open>
  \<^verbatim>\<open>r in data_rules_fired.keys() and column_index in data_rules_fired[r].keys() and
  r in data_line_confidences.keys() and data_line_confidences[r] > not_data_line_confidences[r]\<close>:
  the cell of row \<open>r\<close> when the whole conjunction holds. The conjunction is evaluated
  left to right, so only the last lookup can raise.
\<close>

definition prior_data_cell ::
  "(int \<rightharpoonup> data_row) \<Rightarrow> (int \<rightharpoonup> real) \<Rightarrow> (int \<rightharpoonup> real) \<Rightarrow> int \<Rightarrow> nat \<Rightarrow> error + data_cell option" where
  "prior_data_cell drf dlc ndlc r column_index =
     (case drf r of
        None \<Rightarrow> Inr None
      | Some rw \<Rightarrow>
         (case data_cells rw column_index of
            None \<Rightarrow> Inr None
          | Some c \<Rightarrow>
             (case dlc r of
                None \<Rightarrow> Inr None
              | Some d \<Rightarrow>
                 (case ndlc r of
                    None \<Rightarrow> Inl KeyError
                  | Some n \<Rightarrow> if d > n then Inr (Some c) else Inr None))))"

text \<open>
  The pair \<^verbatim>\<open>(value_agreements, summary_strength)\<close> after the two imputation tests.
  \<open>own\<close> is \<^verbatim>\<open>data_rules_fired[row_index][column_index]\<close>. The first test reads
  \<^verbatim>\<open>(row_index in keys and null_equivalent == True or summary_strength == 1) and
  impute_nulls == True and ...\<close>; the second one, two rows up, does not read
  \<^verbatim>\<open>impute_nulls\<close> and overrides the first.
\<close>

definition impute_agreements ::
  "parameters \<Rightarrow> (int \<rightharpoonup> data_row) \<Rightarrow> (int \<rightharpoonup> real) \<Rightarrow> (int \<rightharpoonup> real) \<Rightarrow> int \<Rightarrow> nat \<Rightarrow> data_cell
     \<Rightarrow> error + (string list \<times> nat)" where
  "impute_agreements params drf dlc ndlc row_index column_index own =
     bind_err
       (if (null_equivalent own \<or> summary_strength own = 1) \<and> impute_nulls params then
          bind_err (prior_data_cell drf dlc ndlc (row_index - 1) column_index) (\<lambda>prior.
            case prior of
              None \<Rightarrow> Inr (agreements own, summary_strength own)
            | Some c \<Rightarrow> Inr (agreements c, summary_strength c))
        else Inr (agreements own, summary_strength own))
       (\<lambda>first.
          if summary_strength own = 0 \<and> aggregate own then
            bind_err (prior_data_cell drf dlc ndlc (row_index - 2) column_index) (\<lambda>prior.
              case prior of
                None \<Rightarrow> Inr first
              | Some c \<Rightarrow> Inr (agreements c, summary_strength c))
          else Inr first)"

subsection \<open>Cell scores\<close>

definition population_weight :: "real \<Rightarrow> nat \<Rightarrow> real" where
  "population_weight pp strength = 1 - (1 - pp) ^ (2 * strength)"

text \<open>\<^verbatim>\<open>max_score\<close> of the fired rules, damped by \<^verbatim>\<open>POPULATION_WEIGHT\<close> when
  \<^verbatim>\<open>summary_population_factor\<close> is set.\<close>

definition cell_score :: "parameters \<Rightarrow> catalogue \<Rightarrow> real \<Rightarrow> string list \<Rightarrow> nat \<Rightarrow> error + real" where
  "cell_score params R lb events strength =
     bind_err (max_score events R lb) (\<lambda>score.
       if summary_population_factor params
       then Inr (score * population_weight (param_p params) strength)
       else Inr score)"

text \<open>One iteration of \<^verbatim>\<open>for column_index in column_indexes\<close>: the scores appended to
  \<^verbatim>\<open>candidate_row_agreements\<close> and \<^verbatim>\<open>candidate_row_disagreements\<close>.\<close>

definition column_scores ::
  "parameters \<Rightarrow> fuzzy_rules \<Rightarrow> (int \<rightharpoonup> data_row) \<Rightarrow> (int \<rightharpoonup> not_data_row) \<Rightarrow>
     (int \<rightharpoonup> real) \<Rightarrow> (int \<rightharpoonup> real) \<Rightarrow> int \<Rightarrow> nat \<Rightarrow> error + (real \<times> real)" where
  "column_scores params fr drf ndrf dlc ndlc row_index column_index =
     bind_err (lookup drf row_index) (\<lambda>rw.
     bind_err (lookup (data_cells rw) column_index) (\<lambda>own.
     bind_err (impute_agreements params drf dlc ndlc row_index column_index own) (\<lambda>(value_agreements, strength).
     bind_err (cell_score params (cell_data fr) (weight_lower_bound params) value_agreements strength) (\<lambda>data_score.
     bind_err (lookup ndrf row_index) (\<lambda>nrw.
     bind_err (lookup (not_data_cells nrw) column_index) (\<lambda>nown.
     bind_err (cell_score params (cell_not_data fr) (not_data_weight_lower_bound params)
                 (disagreements nown) (disagreement_summary_strength nown)) (\<lambda>not_data_score.
     Inr (data_score, not_data_score))))))))"

subsection \<open>Line-rule evidence\<close>

definition startswith :: "string \<Rightarrow> string \<Rightarrow> bool" where
  "startswith s pre = (take (length pre) s = pre)"

definition isdigit :: "char \<Rightarrow> bool" where
  "isdigit c = (c \<in> set ''0123456789'')"

definition digit_value :: "char \<Rightarrow> nat" where
  "digit_value c = of_char c - 48"

text \<open>\<^verbatim>\<open>str(n)\<close> for a one-digit \<open>n\<close>.\<close>

definition digit_str :: "nat \<Rightarrow> string" where
  "digit_str n = [''0123456789'' ! n]"

text \<open>
  The renaming of an untrained arithmetic-sequence event:
  \<^verbatim>\<open>if event.startswith("ADJACENT_ARITHMETIC_SEQUENCE") and R[event]["weight"] == None:
      steps = event[-1]
      if steps.isdigit() and int(steps) in range(2, 6): event = event[:-1] + str(int(steps) + 1)\<close>
  The lookup raises when the event is not in the catalogue.
\<close>

definition rename_event :: "catalogue \<Rightarrow> string \<Rightarrow> error + string" where
  "rename_event R event =
     (if startswith event ''ADJACENT_ARITHMETIC_SEQUENCE'' then
        bind_err (lookup R event) (\<lambda>r.
          if weight r = None then
            (let steps = last event in
             if isdigit steps \<and> digit_value steps \<in> {2..<6}
             then Inr (butlast event @ digit_str (digit_value steps + 1))
             else Inr event)
          else Inr event)
      else Inr event)"

text \<open>
  The loop over \<^verbatim>\<open>not_data_rules_fired[row_index]["line"]\<close>; \<open>evidence\<close> is
  \<^verbatim>\<open>line_not_data_evidence\<close> so far. The appended weight is the one of the renamed
  event, when it is in the catalogue, not \<^verbatim>\<open>None\<close> and \<^verbatim>\<open>> not_data_weight_lower_bound\<close>.
\<close>

fun not_data_line_loop :: "catalogue \<Rightarrow> real \<Rightarrow> bool \<Rightarrow> string list \<Rightarrow> real list \<Rightarrow> error + real list" where
  "not_data_line_loop R lb bd [] evidence = Inr evidence"
| "not_data_line_loop R lb bd (event # events) evidence =
     (if event = ''UP_TO_FIRST_COLUMN_COMPLETE_CONSISTENTLY'' \<and> bd = False
      then not_data_line_loop R lb bd events evidence
      else
        bind_err (rename_event R event) (\<lambda>event'.
          case R event' of
            None \<Rightarrow> not_data_line_loop R lb bd events evidence
          | Some r \<Rightarrow>
             (case weight r of
                None \<Rightarrow> not_data_line_loop R lb bd events evidence
              | Some w \<Rightarrow>
                 if w > lb then not_data_line_loop R lb bd events (evidence @ [w])
                 else not_data_line_loop R lb bd events evidence)))"

text \<open>
  The loop over \<^verbatim>\<open>data_rules_fired[row_index]["line"]\<close>:
  \<^verbatim>\<open>fuzzy_rules["line"]["data"][rule]["weight"]\<close> raises for a rule not in the catalogue; the
  weight is appended when it is not \<^verbatim>\<open>None\<close> and \<^verbatim>\<open>> weight_lower_bound\<close>.
\<close>

fun data_line_loop :: "catalogue \<Rightarrow> real \<Rightarrow> string list \<Rightarrow> real list \<Rightarrow> error + real list" where
  "data_line_loop R lb [] evidence = Inr evidence"
| "data_line_loop R lb (rl # rules) evidence =
     bind_err (lookup R rl) (\<lambda>r.
       case weight r of
         None \<Rightarrow> data_line_loop R lb rules evidence
       | Some w \<Rightarrow>
          if w > lb then data_line_loop R lb rules (evidence @ [w])
          else data_line_loop R lb rules evidence)"

text \<open>
  \<^verbatim>\<open>line_not_data_evidence\<close>: the cell scores, then, when \<^verbatim>\<open>weight_input\<close> is
  \<^verbatim>\<open>"values_and_lines"\<close> and the frame has more than one column, the line-rule weights.
  \<open>ncols\<close> is \<^verbatim>\<open>file_dataframe_trimmed.shape[1]\<close>; \<open>nrow\<close> is \<^verbatim>\<open>not_data_rules_fired[row_index]\<close>.
\<close>

definition line_not_data_evidence ::
  "parameters \<Rightarrow> fuzzy_rules \<Rightarrow> nat \<Rightarrow> bool \<Rightarrow> (int \<rightharpoonup> not_data_row) \<Rightarrow> int \<Rightarrow> real list \<Rightarrow> error + real list" where
  "line_not_data_evidence params fr ncols bd ndrf row_index candidate_row_disagreements =
     (if weight_input params = ''values_and_lines'' \<and> ncols > 1 then
        bind_err (lookup ndrf row_index) (\<lambda>nrw.
          case not_data_line nrw of
            None \<Rightarrow> Inl KeyError
          | Some events \<Rightarrow>
              not_data_line_loop (line_not_data fr) (not_data_weight_lower_bound params) bd events
                candidate_row_disagreements)
      else Inr candidate_row_disagreements)"

definition line_is_data_evidence ::
  "parameters \<Rightarrow> fuzzy_rules \<Rightarrow> (int \<rightharpoonup> data_row) \<Rightarrow> int \<Rightarrow> real list \<Rightarrow> error + real list" where
  "line_is_data_evidence params fr drf row_index candidate_row_agreements =
     (if weight_input params = ''values_and_lines'' then
        bind_err (lookup drf row_index) (\<lambda>rw.
          case data_line rw of
            None \<Rightarrow> Inl KeyError
          | Some rules \<Rightarrow>
              data_line_loop (line_data fr) (weight_lower_bound params) rules candidate_row_agreements)
      else Inr candidate_row_agreements)"

subsection \<open>\<^verbatim>\<open>get_class_confidences\<close>\<close>

text \<open>The state the row loop carries: the two result dictionaries and \<^verbatim>\<open>before_data\<close>.\<close>

record conf_state =
  data_line_confidences :: "int \<rightharpoonup> real"
  not_data_line_confidences :: "int \<rightharpoonup> real"
  before_data :: bool

text \<open>
  \<^verbatim>\<open>before_data\<close> is cleared, in \<^verbatim>\<open>"values_and_lines"\<close> mode, once the row above has a data
  confidence greater than its not-data confidence.
\<close>

definition update_before_data :: "parameters \<Rightarrow> conf_state \<Rightarrow> int \<Rightarrow> error + bool" where
  "update_before_data params st row_index =
     (if weight_input params = ''values_and_lines'' then
        (case data_line_confidences st (row_index - 1) of
           None \<Rightarrow> Inr (before_data st)
         | Some d \<Rightarrow>
            (case not_data_line_confidences st (row_index - 1) of
               None \<Rightarrow> Inl KeyError
             | Some n \<Rightarrow> Inr (if d > n then False else before_data st)))
      else Inr (before_data st))"

text \<open>One iteration of \<^verbatim>\<open>for row_index in file_dataframe_trimmed.index\<close>.\<close>

definition class_confidences_row ::
  "parameters \<Rightarrow> fuzzy_rules \<Rightarrow> nat list \<Rightarrow> (int \<rightharpoonup> data_row) \<Rightarrow> (int \<rightharpoonup> not_data_row) \<Rightarrow>
     conf_state \<Rightarrow> int \<Rightarrow> error + conf_state" where
  "class_confidences_row params fr column_indexes drf ndrf st row_index =
     bind_err (sequence_err (map (column_scores params fr drf ndrf
                 (data_line_confidences st) (not_data_line_confidences st) row_index) column_indexes))
       (\<lambda>scores.
     bind_err (update_before_data params st row_index) (\<lambda>bd.
     bind_err (line_not_data_evidence params fr (length column_indexes) bd ndrf row_index (map snd scores))
       (\<lambda>not_data_evidence.
     bind_err (line_is_data_evidence params fr drf row_index (map fst scores)) (\<lambda>data_evidence.
       Inr \<lparr>data_line_confidences =
              (data_line_confidences st)(row_index \<mapsto> probabilistic_sum data_evidence),
            not_data_line_confidences =
              (not_data_line_confidences st)(row_index \<mapsto> probabilistic_sum not_data_evidence),
            before_data = bd\<rparr>))))"

fun class_confidences_rows ::
  "parameters \<Rightarrow> fuzzy_rules \<Rightarrow> nat list \<Rightarrow> (int \<rightharpoonup> data_row) \<Rightarrow> (int \<rightharpoonup> not_data_row) \<Rightarrow>
     conf_state \<Rightarrow> int list \<Rightarrow> error + conf_state" where
  "class_confidences_rows params fr column_indexes drf ndrf st [] = Inr st"
| "class_confidences_rows params fr column_indexes drf ndrf st (row_index # rows) =
     bind_err (class_confidences_row params fr column_indexes drf ndrf st row_index)
       (\<lambda>st'. class_confidences_rows params fr column_indexes drf ndrf st' rows)"

definition get_class_confidences ::
  "int list \<Rightarrow> nat list \<Rightarrow> (int \<rightharpoonup> data_row) \<Rightarrow> (int \<rightharpoonup> not_data_row) \<Rightarrow> fuzzy_rules \<Rightarrow> parameters
     \<Rightarrow> error + ((int \<rightharpoonup> real) \<times> (int \<rightharpoonup> real))" where
  "get_class_confidences index column_indexes drf ndrf fr params =
     bind_err
       (class_confidences_rows params fr column_indexes drf ndrf
          \<lparr>data_line_confidences = Map.empty, not_data_line_confidences = Map.empty,
           before_data = True\<rparr> index)
       (\<lambda>st. Inr (data_line_confidences st, not_data_line_confidences st))"

subsection \<open>\<^verbatim>\<open>Patterns\<close>: the not-data window summary of one column\<close>

text \<open>
  One row of \<^verbatim>\<open>signatures_slice\<close> in one column, with the attributes the summary reads. A
  train is a list of (character class, run length) pairs; a symbol set is given by the
  list of its elements.
\<close>

type_synonym train = "(string \<times> nat) list"

record signature_row =
  train_normalized_numbers :: train
  all_column_bw_train :: train
  all_column_symbols :: "string list"
  symbolset_normalized_numbers :: "string list"
  all_column_cases :: string
  all_column_character_lengths :: nat
  all_column_isnumber :: bool

text \<open>
  The summary functions of the module \<^verbatim>\<open>pat_utilities\<close> are not part of
  \<^verbatim>\<open>pytheas.py\<close>: they are parameters, and so are the types of the summaries they build.
\<close>

record ('p, 's, 'c, 'l) pat_util =
  generate_pattern_summary :: "train list \<Rightarrow> 'p"
  train_incremental_pattern :: "'p \<Rightarrow> train \<Rightarrow> 'p"
  generate_symbol_summary :: "string list list \<Rightarrow> 's"
  symbolset_incremental_pattern :: "'s \<Rightarrow> string list \<Rightarrow> 's"
  generate_case_summary :: "string list \<Rightarrow> 'c"
  case_incremental_pattern :: "'c \<Rightarrow> string \<Rightarrow> 'c"
  generate_length_summary :: "nat list \<Rightarrow> 'l"
  charlength_incremental_pattern :: "'l \<Rightarrow> nat \<Rightarrow> 'l"

text \<open>
  \<^verbatim>\<open>self.not_data[column_index]\<close>, without its two value-repetition dictionaries
  (\<^verbatim>\<open>candidate_count\<close>, \<^verbatim>\<open>neighbor_count\<close>), which no property below reads.
\<close>

record ('p, 's, 'c, 'l) not_data_patterns =
  nd_train :: 'p
  nd_bw_train :: 'p
  nd_symbolset :: 's
  nd_case :: 'c
  nd_character_length :: 'l
  nd_all_numbers :: bool
  nd_disagreement_summary_strength :: nat

text \<open>
  \<^verbatim>\<open>not_data_initialize\<close>, the batch computation. \<open>context\<close> is the window below the
  candidate, \<^verbatim>\<open>signatures_slice[1:]\<close>, from which \<^verbatim>\<open>collect_line_rules\<close> takes the columns it
  passes. The strength is \<^verbatim>\<open>sum(1 for x in column_trains if len(x) > 0)\<close>.
\<close>

definition not_data_initialize ::
  "('p, 's, 'c, 'l) pat_util \<Rightarrow> signature_row list \<Rightarrow> ('p, 's, 'c, 'l) not_data_patterns" where
  "not_data_initialize pu context =
     \<lparr>nd_train = generate_pattern_summary pu (map train_normalized_numbers context),
      nd_bw_train = generate_pattern_summary pu (map all_column_bw_train context),
      nd_symbolset = generate_symbol_summary pu (map symbolset_normalized_numbers context),
      nd_case = generate_case_summary pu (map all_column_cases context),
      nd_character_length = generate_length_summary pu (map all_column_character_lengths context),
      nd_all_numbers = list_all all_column_isnumber context,
      nd_disagreement_summary_strength =
        length (filter (\<lambda>x. length x > 0) (map train_normalized_numbers context))\<rparr>"

text \<open>
  \<^verbatim>\<open>not_data_increment\<close>. The row that enters the window is \<^verbatim>\<open>signatures_slice[1]\<close>
  (an \<^verbatim>\<open>IndexError\<close> on a slice of fewer than two rows). The statement
  \<^verbatim>\<open>self.not_data[column_index]["disagreement_summary_strength"] + 1\<close> computes a sum and
  drops it, so the field keeps its value.
\<close>

definition not_data_increment ::
  "('p, 's, 'c, 'l) pat_util \<Rightarrow> ('p, 's, 'c, 'l) not_data_patterns \<Rightarrow> signature_row list
     \<Rightarrow> error + ('p, 's, 'c, 'l) not_data_patterns" where
  "not_data_increment pu s signatures_slice =
     (if length signatures_slice < 2 then Inl IndexError
      else
        let lst = signatures_slice ! 1 in
        Inr (s\<lparr>nd_train := train_incremental_pattern pu (nd_train s) (train_normalized_numbers lst),
               nd_bw_train := train_incremental_pattern pu (nd_bw_train s) (all_column_bw_train lst),
               nd_symbolset := symbolset_incremental_pattern pu (nd_symbolset s) (all_column_symbols lst),
               nd_case := case_incremental_pattern pu (nd_case s) (all_column_cases lst),
               nd_character_length :=
                 charlength_incremental_pattern pu (nd_character_length s)
                   (all_column_character_lengths lst),
               nd_all_numbers :=
                 (if length (all_column_symbols lst) > 0
                  then nd_all_numbers s \<and> all_column_isnumber lst
                  else nd_all_numbers s)\<rparr>))"

text \<open>The signatures of a two-digit number such as \<^verbatim>\<open>12\<close>.\<close>

definition ex_sig :: signature_row where
  "ex_sig = \<lparr>train_normalized_numbers = [(''D'', 2)], all_column_bw_train = [(''D'', 2)],
     all_column_symbols = [''D''], symbolset_normalized_numbers = [''D''],
     all_column_cases = ''NONE'', all_column_character_lengths = 2, all_column_isnumber = True\<rparr>"

subsection \<open>\<^verbatim>\<open>predict_last_data_line_top_down\<close>: rows and strings\<close>

text \<open>
  A row of the frame: its index label and its cells, \<open>None\<close> for a null (NaN) cell.
  \<^verbatim>\<open>str\<close> of a null cell is \<^verbatim>\<open>"nan"\<close>.
\<close>

record line =
  line_label :: int
  line_cells :: "string option list"

definition row_values :: "line \<Rightarrow> string list" where
  "row_values l = map (\<lambda>c. case c of None \<Rightarrow> ''nan'' | Some s \<Rightarrow> s) (line_cells l)"

text \<open>\<^verbatim>\<open>str.lower\<close> on ASCII letters; other characters are left as they are.\<close>

definition lower_char :: "char \<Rightarrow> char" where
  "lower_char c =
     (case map_of (zip ''ABCDEFGHIJKLMNOPQRSTUVWXYZ'' ''abcdefghijklmnopqrstuvwxyz'') c of
        None \<Rightarrow> c
      | Some d \<Rightarrow> d)"

definition lower :: "string \<Rightarrow> string" where
  "lower s = map lower_char s"

definition endswith :: "string \<Rightarrow> string \<Rightarrow> bool" where
  "endswith s suf = (drop (length s - length suf) s = suf)"

text \<open>\<^verbatim>\<open>",".join(line.apply(str).tolist())\<close>\<close>

fun join_comma :: "string list \<Rightarrow> string" where
  "join_comma [] = []"
| "join_comma [s] = s"
| "join_comma (s # t # ss) = s @ '','' @ join_comma (t # ss)"

text \<open>\<^verbatim>\<open>i.lower() in ["", "none", "nan"]\<close>\<close>

definition null_like :: "string \<Rightarrow> bool" where
  "null_like s = (lower s \<in> set [[], ''none'', ''nan''])"

text \<open>
  \<^verbatim>\<open>first_value = row_values[0].lower()\<close>, stripped of one pair of surrounding double
  quotes (\<^verbatim>\<open>first_value[1:-1]\<close>). The caller has checked that the row has a cell.
\<close>

definition first_value :: "line \<Rightarrow> string" where
  "first_value l =
     (let fv = lower (hd (row_values l)) in
      if startswith fv [CHR 0x22] \<and> endswith fv [CHR 0x22] then butlast (tl fv) else fv)"

text \<open>\<^verbatim>\<open>line.isnull().values.all()\<close>\<close>

definition all_null :: "line \<Rightarrow> bool" where
  "all_null l = list_all (\<lambda>c. c = None) (line_cells l)"

text \<open>
  \<^verbatim>\<open>non_empty_values\<close>: the number of cells up to and including the last non-null one;
  for a row without a non-null cell \<^verbatim>\<open>last_valid_index()\<close> is \<^verbatim>\<open>None\<close> and the slice is the
  whole row.
\<close>

definition non_empty_values :: "line \<Rightarrow> nat" where
  "non_empty_values l =
     (if all_null l then length (line_cells l)
      else length (rev (dropWhile (\<lambda>c. c = None) (rev (line_cells l)))))"

subsection \<open>Footnote heuristics\<close>

text \<open>
  The test made on a row that is a promoted subheader: a footnote keyword at the start,
  or a value of more than five characters that starts like an enumeration item.
\<close>

definition footnote_in_subheader :: "string list \<Rightarrow> string \<Rightarrow> bool" where
  "footnote_in_subheader footnote_keywords fv =
     (list_ex (startswith fv) footnote_keywords
      \<or> (length fv > 5 \<and>
          (((fv ! 0 = CHR ''1'' \<or> fv ! 0 = CHR ''a'') \<and> fv ! 1 \<in> set '' ./)]:'')
           \<or> (fv ! 0 = CHR ''('' \<and> (isdigit (fv ! 1) \<or> fv ! 1 = CHR ''a'') \<and> fv ! 2 = CHR '')''))))"

text \<open>
  The shape that triggers the second test: a first cell that is not null-like, and only
  null-like cells from the second or from the third cell on.
\<close>

definition label_only_row :: "line \<Rightarrow> bool" where
  "label_only_row l =
     (let rv = row_values l in
      length rv > 0 \<and> \<not> null_like (rv ! 0) \<and>
      ((length rv > 1 \<and> length (filter (\<lambda>i. \<not> null_like i) (drop 1 rv)) = 0)
       \<or> (length rv > 2 \<and> length (filter (\<lambda>i. \<not> null_like i) (drop 2 rv)) = 0)))"

text \<open>
  The second test; \<open>found\<close> is \<^verbatim>\<open>FOOTNOTE_FOUND\<close> as the first test left it.
\<close>

definition footnote_in_label_row :: "string list \<Rightarrow> line \<Rightarrow> string \<Rightarrow> bool \<Rightarrow> bool" where
  "footnote_in_label_row footnote_keywords l fv found =
     (found
      \<or> list_ex (startswith fv) footnote_keywords
      \<or> CHR ''='' \<in> set fv
      \<or> (length fv > 5 \<and> (fv ! 0 = CHR ''1'' \<or> fv ! 0 = CHR ''a'') \<and> fv ! 1 \<in> set '' ./)]:'')
      \<or> (length fv > 5 \<and> fv ! 0 = CHR ''('' \<and> (fv ! 1 = CHR ''1'' \<or> fv ! 1 = CHR ''a'')
            \<and> fv ! 2 = CHR '')'')
      \<or> (startswith fv ''('' \<and> length (row_values l) > 1
            \<and> length (filter (\<lambda>i. i \<noteq> ''nan'') (drop 1 (row_values l))) = 0))"

subsection \<open>The state and the inputs of the walk\<close>

text \<open>
  The variables the loop updates. \<open>data_index\<close> is the index of the frame \<^verbatim>\<open>data\<close> (the
  accepted rows, the newest first); \<open>collected\<close> lists the rows \<^verbatim>\<open>collect_line_rules\<close> has
  been called on, which is what its results and the \<^verbatim>\<open>Patterns\<close> object depend on.
  \<^verbatim>\<open>data_predictions\<close>, which only feeds the call that ends the function, is left out:
  the outcome of that call is one of the inputs below. \<^verbatim>\<open>certain_data\<close> is the empty list
  throughout.
\<close>

record walk_state =
  line_counter :: nat
  predicted_ldl :: int
  data_index :: "int list"
  certain_data_widths :: "nat list"
  probation :: "int list"
  collected :: "int list"

text \<open>
  The arguments of the function, and what it takes from other modules:
  \<^verbatim>\<open>pat_util.footnote_keywords\<close>, the label \<^verbatim>\<open>predict_line_label\<close> gives, the cell rules
  \<^verbatim>\<open>collect_line_rules\<close> fires for a row (given the accepted rows and the rows collected
  so far), and the outcome of the call
  \<^verbatim>\<open>table_classifier_utilities.last_data_line_confidence(data_predictions, predicted_ldl)\<close>
  that ends the function: the \<^verbatim>\<open>"confidence"\<close> entry of what it returns for the last data
  line of the run, or the error it raises.
\<close>

record walk_env =
  env_args :: parameters
  env_fuzzy_rules :: fuzzy_rules
  env_columns :: "nat list"
  env_blank_lines :: "int list"
  env_sub_headers :: "int list"
  env_aggregation_rows :: "int list"
  env_headers_discovered :: "string list"
  env_data_confidence :: "int \<rightharpoonup> real"
  env_not_data_confidence :: "int \<rightharpoonup> real"
  env_downwards_data_rules_fired :: "int \<rightharpoonup> data_row"
  env_downwards_not_data_rules_fired :: "int \<rightharpoonup> not_data_row"
  env_footnote_keywords :: "string list"
  env_predict_line_label :: "real \<Rightarrow> real \<Rightarrow> string"
  env_collect_line_rules :: "int list \<Rightarrow> int list \<Rightarrow> line \<Rightarrow> (nat \<rightharpoonup> data_cell) \<times> (nat \<rightharpoonup> not_data_cell)"
  env_last_data_line_confidence :: "int \<Rightarrow> error + real"

datatype walk_outcome = Continue walk_state | Break walk_state

subsection \<open>Scoring a row during the walk\<close>

text \<open>One iteration of \<^verbatim>\<open>for column in candidate_data\<close>: no imputation here.\<close>

definition walk_column_scores ::
  "parameters \<Rightarrow> fuzzy_rules \<Rightarrow> (nat \<rightharpoonup> data_cell) \<Rightarrow> (nat \<rightharpoonup> not_data_cell) \<Rightarrow> nat
     \<Rightarrow> error + (real \<times> real)" where
  "walk_column_scores params fr dcells ndcells column =
     bind_err (lookup dcells column) (\<lambda>c.
     bind_err (cell_score params (cell_data fr) (weight_lower_bound params)
                 (agreements c) (summary_strength c)) (\<lambda>data_score.
     bind_err (lookup ndcells column) (\<lambda>nc.
     bind_err (cell_score params (cell_not_data fr) (not_data_weight_lower_bound params)
                 (disagreements nc) (disagreement_summary_strength nc)) (\<lambda>not_data_score.
     Inr (data_score, not_data_score)))))"

text \<open>
  \<^verbatim>\<open>(data_conf, not_data_conf)\<close> of a row. The not-data line loop of the walk skips
  \<^verbatim>\<open>UP_TO_FIRST_COLUMN_COMPLETE_CONSISTENTLY\<close> always, which is the loop of
  \<^verbatim>\<open>get_class_confidences\<close> with \<^verbatim>\<open>before_data\<close> false.
\<close>

definition row_confidences :: "walk_env \<Rightarrow> walk_state \<Rightarrow> line \<Rightarrow> error + (real \<times> real)" where
  "row_confidences env st l =
     (let (dcells, ndcells) = env_collect_line_rules env (data_index st) (collected st) l in
      bind_err (sequence_err (map (walk_column_scores (env_args env) (env_fuzzy_rules env) dcells ndcells)
                  (env_columns env))) (\<lambda>scores.
      bind_err (line_not_data_evidence (env_args env) (env_fuzzy_rules env) (length (env_columns env))
                  False (env_downwards_not_data_rules_fired env) (line_label l) (map snd scores))
        (\<lambda>not_data_evidence.
      bind_err (line_is_data_evidence (env_args env) (env_fuzzy_rules env)
                  (env_downwards_data_rules_fired env) (line_label l) (map fst scores))
        (\<lambda>data_evidence.
      Inr (probabilistic_sum data_evidence, probabilistic_sum not_data_evidence)))))"

subsection \<open>One row of the walk\<close>

text \<open>Accepting a row: it becomes the last data line and joins \<^verbatim>\<open>data\<close>.\<close>

definition accept :: "walk_state \<Rightarrow> line \<Rightarrow> walk_state" where
  "accept st l =
     st\<lparr>predicted_ldl := line_label l,
        data_index := line_label l # data_index st,
        certain_data_widths := certain_data_widths st @ [non_empty_values l]\<rparr>"

text \<open>
  The second way to be accepted: \<^verbatim>\<open>len(certain_data_widths) > 0 and
  non_empty_values(line) == max(certain_data_widths) and line_label - 1 in data.index\<close>.
\<close>

definition width_of_data :: "walk_state \<Rightarrow> line \<Rightarrow> bool" where
  "width_of_data st l =
     (length (certain_data_widths st) > 0
      \<and> non_empty_values l = Max (set (certain_data_widths st))
      \<and> line_label l - 1 \<in> set (data_index st))"

text \<open>
  The decision on a scored row, from \<^verbatim>\<open>if data_conf > 0 and data_conf >= not_data_conf\<close>
  to the end of the loop body. \<open>st\<close> is the state before the row.
\<close>

definition decide :: "walk_env \<Rightarrow> walk_state \<Rightarrow> line \<Rightarrow> real \<Rightarrow> real \<Rightarrow> error + walk_outcome" where
  "decide env st l data_conf not_data_conf =
     (if data_conf > 0 \<and> data_conf \<ge> not_data_conf then Inr (Continue (accept st l))
      else if width_of_data st l then Inr (Continue (accept st l))
      else
        bind_err (lookup (env_data_confidence env) (line_label l)) (\<lambda>d.
        bind_err (lookup (env_not_data_confidence env) (line_label l)) (\<lambda>n.
          let prediction = env_predict_line_label env d n in
          if line_label l - 1 \<notin> set (probation st)
             \<and> line_label l - 1 \<notin> set (env_blank_lines env)
             \<and> data_conf < not_data_conf
             \<and> prediction \<noteq> ''DATA''
          then Inr (Continue (st\<lparr>probation := probation st @ [line_label l]\<rparr>))
          else if (data_conf > 0 \<and> data_conf \<ge> not_data_conf)
                  \<or> (line_label l - 1 \<notin> set (probation st) \<and> prediction = ''DATA'')
          then Inr (Continue (accept st l))
          else Inr (Break st))))"

text \<open>
  The loop body. An empty row raises at \<^verbatim>\<open>row_values[0]\<close>. A blank row ends the walk. A
  promoted subheader without a footnote mark is passed over. A label-only row with a
  footnote mark ends the walk. The first three rows and the aggregation rows are
  accepted; an all-null row is passed over; a row equal to a discovered header ends the
  walk; every other row is scored and decided.
\<close>

definition walk_step :: "walk_env \<Rightarrow> walk_state \<Rightarrow> line \<Rightarrow> error + walk_outcome" where
  "walk_step env st0 l =
     (let st = st0\<lparr>line_counter := line_counter st0 + 1\<rparr> in
      if line_cells l = [] then Inl IndexError
      else
        let fv = first_value l in
        if line_label l \<in> set (env_blank_lines env) then Inr (Break st)
        else
          let found = (line_label l \<in> set (env_sub_headers env)
                       \<and> footnote_in_subheader (env_footnote_keywords env) fv) in
          if line_label l \<in> set (env_sub_headers env) \<and> \<not> found then Inr (Continue st)
          else if label_only_row l \<and> footnote_in_label_row (env_footnote_keywords env) l fv found
          then Inr (Break st)
          else if line_counter st \<le> 3 \<or> line_label l \<in> set (env_aggregation_rows env)
          then Inr (Continue (accept st l))
          else if all_null l then Inr (Continue st)
          else if join_comma (row_values l) \<in> set (env_headers_discovered env) then Inr (Break st)
          else
            bind_err (row_confidences env st l) (\<lambda>(data_conf, not_data_conf).
              decide env (st\<lparr>collected := collected st @ [line_label l]\<rparr>) l data_conf not_data_conf))"

subsection \<open>The walk\<close>

fun walk :: "walk_env \<Rightarrow> walk_state \<Rightarrow> line list \<Rightarrow> error + walk_state" where
  "walk env st [] = Inr st"
| "walk env st (l # ls) =
     (case walk_step env st l of
        Inl e \<Rightarrow> Inl e
      | Inr (Continue st') \<Rightarrow> walk env st' ls
      | Inr (Break st') \<Rightarrow> Inr st')"

text \<open>
  \<^verbatim>\<open>predict_last_data_line_top_down\<close>: \<open>candidate_data\<close> is
  \<^verbatim>\<open>dataframe.loc[predicted_fdl:]\<close>, cut to the columns considered. After the loop the
  confidence of the last data line is asked for, on every path, and the pair
  \<^verbatim>\<open>(predicted_ldl, bottom_boundary_confidence)\<close> is returned.
\<close>

definition predict_last_data_line_top_down ::
  "walk_env \<Rightarrow> int \<Rightarrow> line list \<Rightarrow> error + (int \<times> real)" where
  "predict_last_data_line_top_down env predicted_fdl candidate_data =
     bind_err
       (walk env \<lparr>line_counter = 0, predicted_ldl = predicted_fdl, data_index = [],
                  certain_data_widths = [], probation = [], collected = []\<rparr> candidate_data)
       (\<lambda>st.
          bind_err (env_last_data_line_confidence env (predicted_ldl st))
            (\<lambda>bottom_boundary_confidence. Inr (predicted_ldl st, bottom_boundary_confidence)))"

subsection \<open>Table records\<close>

text \<open>
  A value of \<^verbatim>\<open>subheader_scope\<close>: the list of rows a subheader covers, or the empty
  dictionary \<^verbatim>\<open>merge_tables\<close> stores for the rows it promotes.
\<close>

datatype scope = Rows "int list" | Empty_dict

record aggregation =
  aggregation_value :: string
  aggregation_function :: string
  aggregation_phrase :: string
  aggregation_label :: string

text \<open>
  The emitted record, without \<^verbatim>\<open>columns\<close> and \<^verbatim>\<open>fdl_confidence\<close>, which hold no row
  boundary.
\<close>

record table =
  top_boundary :: int
  bottom_boundary :: int
  data_start :: int
  data_end :: int
  header :: "int list"
  footnotes :: "int list"
  subheader_scope :: "int \<rightharpoonup> scope"
  aggregation_scope :: "int \<rightharpoonup> aggregation"
  data_end_confidence :: real

text \<open>\<^verbatim>\<open>list(range(a, b))\<close>\<close>

definition range_list :: "int \<Rightarrow> int \<Rightarrow> int list" where
  "range_list a b = [a..b - 1]"

subsection \<open>Promotion of the candidate subheaders (\<^verbatim>\<open>predict_subheaders\<close>)\<close>

text \<open>\<^verbatim>\<open>str.strip\<close>: the whitespace characters of ASCII are removed at both ends.\<close>

definition isspace :: "char \<Rightarrow> bool" where
  "isspace c =
     (c \<in> set [CHR 0x09, CHR 0x0A, CHR 0x0B, CHR 0x0C, CHR 0x0D,
                CHR 0x1C, CHR 0x1D, CHR 0x1E, CHR 0x1F, CHR 0x20])"

definition strip :: "string \<Rightarrow> string" where
  "strip s = rev (dropWhile isspace (rev (dropWhile isspace s)))"

text \<open>
  One iteration of \<^verbatim>\<open>for row in csv_file.loc[cand_subhead_indexes].itertuples()\<close>, the loop
  that appends the promoted rows to \<^verbatim>\<open>predicted_pat_sub_headers\<close>. A row without a cell
  raises at \<^verbatim>\<open>row[1]\<close>. A row whose first value is null-like or is one of the first-column
  data values is passed over; a row right under a blank line or a header row is
  promoted; every other row is scored against the first-column data values and is
  promoted unless it scores as data, or the two rows above it are subheaders already,
  or it is the last row of the candidate data. The scores come from the pattern
  summaries and rule evaluators of \<^verbatim>\<open>pat_utilities\<close> and \<^verbatim>\<open>table_classifier_utilities\<close>,
  which are not in the sources: \<open>scored_as_data\<close> gives, for a row, whether
  \<^verbatim>\<open>cell_data_score > cell_not_data_score\<close>, or the error raised while scoring.
\<close>

definition promote ::
  "int list \<Rightarrow> int list \<Rightarrow> string list \<Rightarrow> (int \<Rightarrow> error + bool) \<Rightarrow> int \<Rightarrow> int list \<Rightarrow> line
     \<Rightarrow> error + int list" where
  "promote pat_blank_lines pat_headers first_column_data_values scored_as_data last_index
       predicted_pat_sub_headers row =
     (if line_cells row = [] then Inl IndexError
      else
        let first_value = strip (hd (row_values row)) in
        if lower first_value \<in> set [[], ''nan'', ''none'', ''null'']
        then Inr predicted_pat_sub_headers
        else if first_value \<in> set first_column_data_values then Inr predicted_pat_sub_headers
        else if line_label row - 1 \<in> set pat_blank_lines \<or> line_label row - 1 \<in> set pat_headers
        then Inr (predicted_pat_sub_headers @ [line_label row])
        else
          bind_err (scored_as_data (line_label row)) (\<lambda>is_data.
            if is_data then Inr predicted_pat_sub_headers
            else if line_label row - 1 \<in> set predicted_pat_sub_headers
                    \<and> line_label row - 2 \<in> set predicted_pat_sub_headers
            then Inr predicted_pat_sub_headers
            else if line_label row \<noteq> last_index
            then Inr (predicted_pat_sub_headers @ [line_label row])
            else Inr predicted_pat_sub_headers))"

fun promote_all ::
  "int list \<Rightarrow> int list \<Rightarrow> string list \<Rightarrow> (int \<Rightarrow> error + bool) \<Rightarrow> int \<Rightarrow> int list \<Rightarrow> line list
     \<Rightarrow> error + int list" where
  "promote_all pat_blank_lines pat_headers first_column_data_values scored_as_data last_index
       predicted_pat_sub_headers [] = Inr predicted_pat_sub_headers"
| "promote_all pat_blank_lines pat_headers first_column_data_values scored_as_data last_index
       predicted_pat_sub_headers (row # rows) =
     bind_err (promote pat_blank_lines pat_headers first_column_data_values scored_as_data
                 last_index predicted_pat_sub_headers row)
       (\<lambda>promoted. promote_all pat_blank_lines pat_headers first_column_data_values
                     scored_as_data last_index promoted rows)"

subsection \<open>Scopes of the promoted subheaders (end of \<^verbatim>\<open>predict_subheaders\<close>)\<close>

text \<open>
  \<^verbatim>\<open>for s_i, subheader in enumerate(predicted_pat_sub_headers)\<close>: a subheader that has no
  scope yet gets the rows up to the end of the candidate data when it is the last of the
  list, and otherwise the rows up to the next subheader of the list that has no scope
  yet; when every later subheader has one, it gets none. \<open>last_index\<close> is
  \<^verbatim>\<open>cand_data.index[-1]\<close>.
\<close>

fun assign_scopes :: "int list \<Rightarrow> (int \<rightharpoonup> scope) \<Rightarrow> int \<Rightarrow> (int \<rightharpoonup> scope)" where
  "assign_scopes [] sc last_index = sc"
| "assign_scopes (subheader # rest) sc last_index =
     (if subheader \<in> dom sc then assign_scopes rest sc last_index
      else if rest = []
      then assign_scopes rest (sc(subheader \<mapsto> Rows (range_list (subheader + 1) (last_index + 1))))
             last_index
      else
        (case find (\<lambda>next_subh. next_subh \<notin> dom sc) rest of
           None \<Rightarrow> assign_scopes rest sc last_index
         | Some next_subh \<Rightarrow>
             assign_scopes rest (sc(subheader \<mapsto> Rows (range_list (subheader + 1) next_subh)))
               last_index))"

subsection \<open>\<^verbatim>\<open>predict_subheaders\<close>\<close>

text \<open>\<^verbatim>\<open>csv_file.loc[h]\<close>: the row labelled \<open>h\<close>, a \<^verbatim>\<open>KeyError\<close> when there is none.\<close>

definition row_at :: "line list \<Rightarrow> int \<Rightarrow> error + line" where
  "row_at csv_file h =
     (case find (\<lambda>l. line_label l = h) csv_file of None \<Rightarrow> Inl KeyError | Some l \<Rightarrow> Inr l)"

text \<open>
  The function, as far as the subheader scope it returns goes. The first loop reads
  \<^verbatim>\<open>row[1]\<close> of every row of \<^verbatim>\<open>cand_data\<close>, which raises on a row without a cell.
  \<open>candidates\<close> is the argument \<^verbatim>\<open>predicted_pat_sub_headers\<close>, whose rows are fetched next
  (\<^verbatim>\<open>csv_file.loc[cand_subhead_indexes]\<close>, a \<^verbatim>\<open>KeyError\<close> for a missing row);
  \<^verbatim>\<open>cand_data.index[-1]\<close> raises on an empty frame. What comes from modules that are not
  in the sources is passed in: \<open>first_column_data_values\<close>, collected with the aggregation
  phrases and null-equivalent values of \<^verbatim>\<open>pat_utilities\<close>, and the lists
  \<^verbatim>\<open>predicted_pat_sub_headers\<close> and \<^verbatim>\<open>cand_subhead_indexes\<close> and the dictionary
  \<^verbatim>\<open>subheader_scope\<close> as \<^verbatim>\<open>discover_aggregation_scope\<close> returns them (\<open>scoped_sub_headers\<close>,
  \<open>scoped_candidates\<close>, \<open>scope_before\<close>). The rows of \<open>scoped_candidates\<close> then go through
  the promotion loop, and the scopes are assigned.
\<close>

definition predict_subheaders ::
  "line list \<Rightarrow> line list \<Rightarrow> int list \<Rightarrow> int list \<Rightarrow> int list \<Rightarrow> string list \<Rightarrow> int list
     \<Rightarrow> int list \<Rightarrow> (int \<rightharpoonup> scope) \<Rightarrow> (int \<Rightarrow> error + bool) \<Rightarrow> error + (int \<rightharpoonup> scope)" where
  "predict_subheaders csv_file cand_data candidates pat_blank_lines pat_headers
       first_column_data_values scoped_sub_headers scoped_candidates scope_before scored_as_data =
     (if list_ex (\<lambda>row. line_cells row = []) cand_data then Inl IndexError
      else
        bind_err (sequence_err (map (row_at csv_file) candidates)) (\<lambda>candidate_rows.
          if cand_data = [] then Inl IndexError
          else
            let last_index = line_label (last cand_data) in
            bind_err (sequence_err (map (row_at csv_file) scoped_candidates)) (\<lambda>rows.
            bind_err (promote_all pat_blank_lines pat_headers first_column_data_values
                        scored_as_data last_index scoped_sub_headers rows)
              (\<lambda>predicted_pat_sub_headers.
                 Inr (assign_scopes predicted_pat_sub_headers scope_before last_index)))))"

subsection \<open>\<^verbatim>\<open>merge_tables\<close> and the test that calls it\<close>

text \<open>
  \<^verbatim>\<open>list(set(range(table_tail["top_boundary"], table_tail["data_start"])) -
  set(table_tail["header"]))\<close>: the rows of the tail table above its data that are not
  header rows.
\<close>

definition rows_above_data :: "table \<Rightarrow> int list" where
  "rows_above_data t =
     filter (\<lambda>r. r \<notin> set (header t)) (range_list (top_boundary t) (data_start t))"

definition merge_tables :: "table \<Rightarrow> table \<Rightarrow> table" where
  "merge_tables table_head table_tail =
     table_head
       \<lparr>data_end := data_end table_tail,
        subheader_scope :=
          fold (\<lambda>subheader sc. sc(subheader \<mapsto> Empty_dict)) (rows_above_data table_tail)
            (subheader_scope table_head ++ subheader_scope table_tail),
        aggregation_scope := aggregation_scope table_head ++ aggregation_scope table_tail\<rparr>"

text \<open>
  The test of \<^verbatim>\<open>extract_tables\<close>:
  \<^verbatim>\<open>set(range(previous["data_end"] + 1, new["data_start"])).issubset(set(blank_lines +
  list(set(range(new["top_boundary"], new["data_start"])) - set(new["header"]))))\<close>
\<close>

definition merge_condition :: "int list \<Rightarrow> table \<Rightarrow> table \<Rightarrow> bool" where
  "merge_condition blank_lines previous new =
     (set (range_list (data_end previous + 1) (data_start new))
        \<subseteq> set (blank_lines @ rows_above_data new))"

subsection \<open>\<^verbatim>\<open>discover_next_table\<close>\<close>

text \<open>
  What one call takes from the modules that are not part of \<^verbatim>\<open>pytheas.py\<close>
  (\<^verbatim>\<open>predict_fdl\<close>, \<^verbatim>\<open>predict_header_indexes\<close>, \<^verbatim>\<open>discover_aggregation_scope\<close>, the rule
  evaluators): the first data line (negative when there is none), the header rows and
  the candidate subheaders \<^verbatim>\<open>predict_header_indexes\<close> returns, the inputs of the walk
  (among them the subheaders and aggregation rows of the first search,
  \<^verbatim>\<open>predict_subheaders_new\<close>), and, given the last data line, the inputs of
  \<^verbatim>\<open>predict_subheaders\<close> described above and the aggregation scope.
\<close>

record prediction =
  pat_first_data_line :: int
  predicted_pat_header_indexes :: "int list"
  candidate_pat_sub_headers :: "int list"
  walk_inputs :: walk_env
  first_column_data_values :: "int \<Rightarrow> string list"
  scoped_sub_headers :: "int \<Rightarrow> int list"
  scoped_candidates :: "int \<Rightarrow> int list"
  scope_before :: "int \<Rightarrow> (int \<rightharpoonup> scope)"
  scored_as_data :: "int \<Rightarrow> int \<Rightarrow> error + bool"
  aggregations :: "int \<Rightarrow> (int \<rightharpoonup> aggregation)"

text \<open>
  \<^verbatim>\<open>data_section_start\<close>: the first data line, or the first candidate subheader when one
  lies above it.
\<close>

definition data_section_start :: "prediction \<Rightarrow> int" where
  "data_section_start pr =
     (if length (candidate_pat_sub_headers pr) > 0
      then min (Min (set (candidate_pat_sub_headers pr))) (pat_first_data_line pr)
      else pat_first_data_line pr)"

text \<open>
  The candidates of the second search for subheaders,
  \<^verbatim>\<open>sorted(list(set(predicted_pat_sub_headers).intersection(set(predicted_pat_data_lines))))\<close>:
  \<^verbatim>\<open>predicted_pat_sub_headers\<close> holds the keys of the scope the first search found, which are
  the subheaders the walk was given, and \<^verbatim>\<open>predicted_pat_data_lines\<close> is
  \<^verbatim>\<open>list(range(data_section_start, pat_last_data_line + 1))\<close>.
\<close>

definition candidates_in_data :: "prediction \<Rightarrow> int \<Rightarrow> int list" where
  "candidates_in_data pr pat_last_data_line =
     sorted_list_of_set
       (set (env_sub_headers (walk_inputs pr))
          \<inter> set (range_list (data_section_start pr) (pat_last_data_line + 1)))"

text \<open>\<^verbatim>\<open>d[k] = v\<close> on a dictionary kept as a list of pairs in insertion order.\<close>

fun dict_set :: "'k \<Rightarrow> 'v \<Rightarrow> ('k \<times> 'v) list \<Rightarrow> ('k \<times> 'v) list" where
  "dict_set k v [] = [(k, v)]"
| "dict_set k v ((k', v') # kvs) =
     (if k' = k then (k, v) # kvs else (k', v') # dict_set k v kvs)"

text \<open>\<^verbatim>\<open>for h in headers: headers_discovered[h] = ",".join(csv_file.loc[h].apply(str).tolist())\<close>\<close>

fun discover_headers ::
  "line list \<Rightarrow> int list \<Rightarrow> (int \<times> string) list \<Rightarrow> error + (int \<times> string) list" where
  "discover_headers csv_file [] seen = Inr seen"
| "discover_headers csv_file (h # hs) seen =
     bind_err (row_at csv_file h) (\<lambda>l.
       discover_headers csv_file hs (dict_set h (join_comma (row_values l)) seen))"

text \<open>
  The function returns the new record, or \<^verbatim>\<open>None\<close>, and updates \<^verbatim>\<open>headers_discovered\<close> in
  place. \<open>frame\<close> is the whole trimmed frame, \<^verbatim>\<open>csv_file.loc[file_offset:]\<close> the rows
  labelled \<open>file_offset\<close> or more. The walk runs over the rows from the first data line
  on, with the blank lines of the file and the headers discovered so far. The second
  search for subheaders runs over \<^verbatim>\<open>csv_file.loc[data_section_start:pat_last_data_line]\<close>.
\<close>

definition discover_next_table ::
  "line list \<Rightarrow> int \<Rightarrow> int list \<Rightarrow> (int \<times> string) list \<Rightarrow> prediction
     \<Rightarrow> error + (table option \<times> (int \<times> string) list)" where
  "discover_next_table frame file_offset blank_lines seen pr =
     (let csv_file = filter (\<lambda>l. file_offset \<le> line_label l) frame in
      if csv_file = [] then Inr (None, seen)
      else if pat_first_data_line pr \<ge> 0 then
        bind_err (discover_headers csv_file (predicted_pat_header_indexes pr) seen) (\<lambda>seen'.
          bind_err (predict_last_data_line_top_down
                      ((walk_inputs pr)\<lparr>env_blank_lines := blank_lines,
                                        env_headers_discovered := map snd seen'\<rparr>)
                      (pat_first_data_line pr)
                      (filter (\<lambda>l. pat_first_data_line pr \<le> line_label l) csv_file))
            (\<lambda>(pat_last_data_line, bottom_boundary_confidence).
               bind_err (predict_subheaders csv_file
                           (filter (\<lambda>l. data_section_start pr \<le> line_label l
                                         \<and> line_label l \<le> pat_last_data_line) csv_file)
                           (candidates_in_data pr pat_last_data_line)
                           blank_lines
                           (predicted_pat_header_indexes pr)
                           (first_column_data_values pr pat_last_data_line)
                           (scoped_sub_headers pr pat_last_data_line)
                           (scoped_candidates pr pat_last_data_line)
                           (scope_before pr pat_last_data_line)
                           (scored_as_data pr pat_last_data_line))
                 (\<lambda>subheader_scope.
                    Inr (Some \<lparr>top_boundary = file_offset,
                               bottom_boundary = int (length csv_file) - 1,
                               data_start = data_section_start pr,
                               data_end = pat_last_data_line,
                               header = predicted_pat_header_indexes pr,
                               footnotes = [],
                               subheader_scope = subheader_scope,
                               aggregation_scope = aggregations pr pat_last_data_line,
                               data_end_confidence = bottom_boundary_confidence\<rparr>,
                         seen'))))
      else Inr (None, seen))"

subsection \<open>\<^verbatim>\<open>extract_tables\<close>\<close>

record extract_state =
  discovered_tables :: "nat \<rightharpoonup> table"
  table_counter :: nat
  headers_discovered :: "(int \<times> string) list"

text \<open>
  The fix-up of the table stored before the current one: its footnotes are cut at the top
  of the current table, and its bottom boundary and end confidence are reset.
\<close>

definition fix_previous :: "(nat \<rightharpoonup> table) \<Rightarrow> nat \<Rightarrow> table \<Rightarrow> (nat \<rightharpoonup> table)" where
  "fix_previous tables counter discovered_table =
     (case tables (counter - 1) of
        None \<Rightarrow> tables
      | Some prev \<Rightarrow>
          tables(counter - 1 \<mapsto>
            prev\<lparr>footnotes :=
                   (if length (footnotes prev) > 0
                    then range_list (hd (footnotes prev)) (top_boundary discovered_table)
                    else footnotes prev),
                 bottom_boundary := top_boundary discovered_table - 1,
                 data_end_confidence := data_end_confidence discovered_table\<rparr>))"

text \<open>The footnotes and bottom boundary of the current table; \<open>n\<close> is \<^verbatim>\<open>shape[0]\<close>.\<close>

definition fix_current :: "int \<Rightarrow> table \<Rightarrow> table" where
  "fix_current n t =
     (let fn = (if data_end t < n - 1 then range_list (data_end t + 1) n else []) in
      t\<lparr>footnotes := fn,
        bottom_boundary := (if length fn > 0 then last fn else data_end t)\<rparr>)"

text \<open>
  One iteration of \<^verbatim>\<open>while discovered_table != None\<close>. \<open>predict\<close> gives what the other
  modules return for a file offset and a table counter. After a merge the record stored
  under the counter and \<^verbatim>\<open>discovered_table\<close> are one object; the next iteration stores it
  again, which is where the model records its changes.
\<close>

definition extract_body ::
  "line list \<Rightarrow> int list \<Rightarrow> (int \<Rightarrow> nat \<Rightarrow> prediction) \<Rightarrow> extract_state \<Rightarrow> table
     \<Rightarrow> error + (extract_state \<times> table option)" where
  "extract_body frame blank_lines predict st discovered_table =
     (let tables = (discovered_tables st)(table_counter st \<mapsto> discovered_table) in
      bind_err (discover_headers frame (header discovered_table) (headers_discovered st)) (\<lambda>seen1.
        let counter = table_counter st + 1;
            file_offset = data_end discovered_table + 1
        in
        bind_err (discover_next_table frame file_offset blank_lines seen1
                    (predict file_offset counter))
          (\<lambda>(found, seen2).
             case found of
               None \<Rightarrow>
                 Inr (\<lparr>discovered_tables = tables, table_counter = counter,
                       headers_discovered = seen2\<rparr>, None)
             | Some new \<Rightarrow>
                 let merging = merge_condition blank_lines discovered_table new;
                     current = (if merging then merge_tables discovered_table new else new);
                     counter' = (if merging then counter - 1 else counter)
                 in
                 Inr (\<lparr>discovered_tables = fix_previous tables counter' current,
                       table_counter = counter', headers_discovered = seen2\<rparr>,
                      Some (fix_current (int (length frame)) current)))))"

text \<open>The loop, with fuel: \<open>None\<close> when the fuel runs out before the loop ends.\<close>

fun extract_loop ::
  "nat \<Rightarrow> line list \<Rightarrow> int list \<Rightarrow> (int \<Rightarrow> nat \<Rightarrow> prediction) \<Rightarrow> extract_state \<Rightarrow> table option
     \<Rightarrow> (error + extract_state) option" where
  "extract_loop fuel frame blank_lines predict st None = Some (Inr st)"
| "extract_loop 0 frame blank_lines predict st (Some t) = None"
| "extract_loop (Suc fuel) frame blank_lines predict st (Some t) =
     (case extract_body frame blank_lines predict st t of
        Inl e \<Rightarrow> Some (Inl e)
      | Inr (st', next_table) \<Rightarrow> extract_loop fuel frame blank_lines predict st' next_table)"

text \<open>
  After the loop the footnotes of the last table are its trailing rows that are not
  blank.
\<close>

definition final_footnotes :: "int \<Rightarrow> int list \<Rightarrow> extract_state \<Rightarrow> (nat \<rightharpoonup> table)" where
  "final_footnotes n blank_lines st =
     (case discovered_tables st (table_counter st - 1) of
        None \<Rightarrow> discovered_tables st
      | Some t \<Rightarrow>
          if data_end t \<noteq> n
          then (discovered_tables st)(table_counter st - 1 \<mapsto>
                 t\<lparr>footnotes := filter (\<lambda>r. r \<notin> set blank_lines) (range_list (data_end t + 1) n)\<rparr>)
          else discovered_tables st)"

definition extract_tables ::
  "nat \<Rightarrow> line list \<Rightarrow> int list \<Rightarrow> (int \<Rightarrow> nat \<Rightarrow> prediction) \<Rightarrow> (error + (nat \<rightharpoonup> table)) option" where
  "extract_tables fuel frame blank_lines predict =
     (case discover_next_table frame 0 blank_lines [] (predict 0 1) of
        Inl e \<Rightarrow> Some (Inl e)
      | Inr (first, seen) \<Rightarrow>
          map_option (map_sum id (final_footnotes (int (length frame)) blank_lines))
            (extract_loop fuel frame blank_lines predict
               \<lparr>discovered_tables = Map.empty, table_counter = 1, headers_discovered = seen\<rparr> first))"

subsection \<open>Notions used to state the properties of \<^verbatim>\<open>get_class_confidences\<close>\<close>

text \<open>
  The cell of row \<open>r\<close> in the given column when row \<open>r\<close> has one and was classified
  data, that is, its recorded data confidence exceeds its not-data confidence.
\<close>

definition classified_data_cell ::
  "(int \<rightharpoonup> data_row) \<Rightarrow> (int \<rightharpoonup> real) \<Rightarrow> (int \<rightharpoonup> real) \<Rightarrow> int \<Rightarrow> nat \<Rightarrow> data_cell option" where
  "classified_data_cell drf dlc ndlc r column_index =
     (case (drf r, dlc r, ndlc r) of
        (Some rw, Some d, Some n) \<Rightarrow> if d > n then data_cells rw column_index else None
      | _ \<Rightarrow> None)"

text \<open>
  The event whose weight is read for a fired not-data line rule: an
  \<^verbatim>\<open>ADJACENT_ARITHMETIC_SEQUENCE_k\<close> event (\<open>k\<close> from 2 to 5) whose own weight is null
  stands for \<^verbatim>\<open>ADJACENT_ARITHMETIC_SEQUENCE_(k+1)\<close>; every other event stands for itself.
\<close>

definition renamed :: "catalogue \<Rightarrow> string \<Rightarrow> string" where
  "renamed R event =
     (if startswith event ''ADJACENT_ARITHMETIC_SEQUENCE''
         \<and> (\<exists>r. R event = Some r \<and> weight r = None)
         \<and> isdigit (last event) \<and> digit_value (last event) \<in> {2..<6}
      then butlast event @ digit_str (digit_value (last event) + 1)
      else event)"

text \<open>
  A rule that is in the catalogue with a weight that is not null and strictly above the
  bound, and the weight of a rule that has one.
\<close>

definition above_bound :: "catalogue \<Rightarrow> real \<Rightarrow> string \<Rightarrow> bool" where
  "above_bound R lb e =
     (case R e of
        None \<Rightarrow> False
      | Some r \<Rightarrow> (case weight r of None \<Rightarrow> False | Some w \<Rightarrow> lb < w))"

definition weight_of :: "catalogue \<Rightarrow> string \<Rightarrow> real" where
  "weight_of R e = the (weight (the (R e)))"

text \<open>
  The scopes the loop assigns to a strictly increasing list of subheaders none of which
  has a scope yet: each subheader covers the rows up to the next one, the last one the
  rows up to the end of the candidate data.
\<close>

fun scopes_of :: "int list \<Rightarrow> int \<Rightarrow> (int \<rightharpoonup> scope)" where
  "scopes_of [] last_index = Map.empty"
| "scopes_of [s] last_index = [s \<mapsto> Rows (range_list (s + 1) (last_index + 1))]"
| "scopes_of (s # t # rest) last_index =
     (scopes_of (t # rest) last_index)(s \<mapsto> Rows (range_list (s + 1) t))"

subsection \<open>Notions used to state the properties of \<^verbatim>\<open>extract_tables\<close>\<close>

text \<open>
  The ordering invariant of a table record, with \<^verbatim>\<open>header[0]\<close> and \<^verbatim>\<open>header[-1]\<close> the
  first and last element of the header list.
\<close>

definition ordering_invariant :: "table \<Rightarrow> bool" where
  "ordering_invariant t =
     ((if header t \<noteq> []
       then top_boundary t \<le> hd (header t) \<and> hd (header t) \<le> last (header t)
            \<and> last (header t) < data_start t
       else top_boundary t \<le> data_start t)
      \<and> data_start t \<le> data_end t \<and> data_end t \<le> bottom_boundary t)"

text \<open>The same without the bottom boundary, which \<^verbatim>\<open>extract_tables\<close> sets afterwards.\<close>

definition ordered_above :: "table \<Rightarrow> bool" where
  "ordered_above t =
     ((if header t \<noteq> []
       then top_boundary t \<le> hd (header t) \<and> hd (header t) \<le> last (header t)
            \<and> last (header t) < data_start t
       else True)
      \<and> top_boundary t \<le> data_start t \<and> data_start t \<le> data_end t)"

text \<open>
  Modelled from the spec: what \<^verbatim>\<open>predict_fdl\<close> and \<^verbatim>\<open>predict_header_indexes\<close> (module
  \<^verbatim>\<open>table_classifier_utilities\<close>, not in the sources) return for the frame from
  \<open>file_offset\<close> on. The first data line, when there is one, is a row of that frame;
  the header is a sorted list of rows above the first data line, back to the start of the
  scan; the candidate subheaders are rows of the scan, and lie below the header rows,
  as the ordering invariant asks of the data start computed from them.
\<close>

definition well_predicted :: "int \<Rightarrow> int \<Rightarrow> prediction \<Rightarrow> bool" where
  "well_predicted n file_offset pr =
     (0 \<le> pat_first_data_line pr \<longrightarrow>
        file_offset \<le> pat_first_data_line pr \<and> pat_first_data_line pr < n
        \<and> sorted (predicted_pat_header_indexes pr)
        \<and> (\<forall>h \<in> set (predicted_pat_header_indexes pr).
              file_offset \<le> h \<and> h < pat_first_data_line pr)
        \<and> (\<forall>c \<in> set (candidate_pat_sub_headers pr).
              file_offset \<le> c \<and> (\<forall>h \<in> set (predicted_pat_header_indexes pr). h < c)))"

text \<open>
  Modelled from the spec: what \<^verbatim>\<open>discover_aggregation_scope\<close> (module
  \<^verbatim>\<open>table_classifier_utilities\<close>, not in the sources) returns to \<^verbatim>\<open>predict_subheaders\<close>. It
  invents no row: the subheaders and candidates it returns, and the keys of the scope it
  returns, are among the candidate subheaders it was passed.
\<close>

definition scoped_among_candidates :: "prediction \<Rightarrow> bool" where
  "scoped_among_candidates pr =
     (\<forall>ldl. set (scoped_sub_headers pr ldl) \<union> set (scoped_candidates pr ldl)
              \<union> dom (scope_before pr ldl) \<subseteq> set (candidates_in_data pr ldl))"

text \<open>
  The case in which \<^verbatim>\<open>discover_aggregation_scope\<close> has assigned no scope, and the
  subheaders it returns followed by the candidates it returns are in strictly
  increasing order.
\<close>

definition nothing_scoped :: "prediction \<Rightarrow> int \<Rightarrow> bool" where
  "nothing_scoped pr ldl =
     (scope_before pr ldl = Map.empty
      \<and> sorted_wrt (<) (scoped_sub_headers pr ldl @ scoped_candidates pr ldl))"

text \<open>The keys of the subheader scope of a table lie among its data rows.\<close>

definition keys_in_data :: "table \<Rightarrow> bool" where
  "keys_in_data t = (dom (subheader_scope t) \<subseteq> {data_start t..data_end t})"

text \<open>
  What holds of the loop state and the current table at the head of every iteration:
  the counter is positive, every stored table and the current one satisfy the ordering
  invariant, and the table stored just before the current one ends above it.
\<close>

definition extract_inv :: "extract_state \<Rightarrow> table option \<Rightarrow> bool" where
  "extract_inv st current =
     (table_counter st \<ge> 1
      \<and> (\<forall>k t. discovered_tables st k = Some t \<longrightarrow> ordering_invariant t)
      \<and> (\<forall>c. current = Some c \<longrightarrow>
            ordering_invariant c
            \<and> (\<forall>p. discovered_tables st (table_counter st - 1) = Some p \<longrightarrow>
                   data_end p < top_boundary c)))"

subsection \<open>Example inputs\<close>

text \<open>The default parameters of the \<^verbatim>\<open>PYTHEAS\<close> class.\<close>

definition ex_params :: parameters where
  "ex_params = \<lparr>impute_nulls = True, summary_population_factor = True,
     weight_input = ''values_and_lines'', weight_lower_bound = 2/5,
     not_data_weight_lower_bound = 3/5, param_p = 3/10\<rparr>"

text \<open>
  Two rows of one column. Row 0 fired the rule \<^verbatim>\<open>A\<close> over a window of three values;
  the cell of row 1 is not null-equivalent, not an aggregate, and has an empty window.
\<close>

definition ex_cell_above :: data_cell where
  "ex_cell_above = \<lparr>agreements = [''A''], summary_strength = 3, null_equivalent = False,
     aggregate = False\<rparr>"

definition ex_cell_empty_window :: data_cell where
  "ex_cell_empty_window = \<lparr>agreements = [], summary_strength = 0, null_equivalent = False,
     aggregate = False\<rparr>"

definition ex_cell_null :: data_cell where
  "ex_cell_null = \<lparr>agreements = [], summary_strength = 0, null_equivalent = True,
     aggregate = False\<rparr>"

definition ex_drf :: "int \<rightharpoonup> data_row" where
  "ex_drf = [0 \<mapsto> \<lparr>data_cells = [0 \<mapsto> ex_cell_above], data_line = Some []\<rparr>,
             1 \<mapsto> \<lparr>data_cells = [0 \<mapsto> ex_cell_empty_window], data_line = Some [''R1'', ''R2'']\<rparr>]"

text \<open>Row 0 was classified data: confidences 0.9 against 0.1.\<close>

definition ex_dlc :: "int \<rightharpoonup> real" where
  "ex_dlc = [0 \<mapsto> 9/10]"

definition ex_ndlc :: "int \<rightharpoonup> real" where
  "ex_ndlc = [0 \<mapsto> 1/10]"

text \<open>
  A catalogue in which the line rule \<^verbatim>\<open>R1\<close> weighs exactly the lower bound 0.4 and
  \<^verbatim>\<open>R2\<close> weighs 0.7; on the not-data side \<^verbatim>\<open>ADJACENT_ARITHMETIC_SEQUENCE_2\<close> is untrained
  and \<^verbatim>\<open>ADJACENT_ARITHMETIC_SEQUENCE_3\<close> weighs 0.9.
\<close>

definition ex_rules :: fuzzy_rules where
  "ex_rules = \<lparr>cell_data = [''A'' \<mapsto> \<lparr>weight = Some (1/2)\<rparr>],
     cell_not_data = Map.empty,
     line_data = [''R1'' \<mapsto> \<lparr>weight = Some (2/5)\<rparr>, ''R2'' \<mapsto> \<lparr>weight = Some (7/10)\<rparr>],
     line_not_data = [''ADJACENT_ARITHMETIC_SEQUENCE_2'' \<mapsto> \<lparr>weight = None\<rparr>,
                      ''ADJACENT_ARITHMETIC_SEQUENCE_3'' \<mapsto> \<lparr>weight = Some (9/10)\<rparr>,
                      ''UP_TO_FIRST_COLUMN_COMPLETE_CONSISTENTLY'' \<mapsto> \<lparr>weight = Some (4/5)\<rparr>]\<rparr>"

definition ex_ndrf :: "int \<rightharpoonup> not_data_row" where
  "ex_ndrf = [1 \<mapsto> \<lparr>not_data_cells = Map.empty,
                     not_data_line = Some [''UP_TO_FIRST_COLUMN_COMPLETE_CONSISTENTLY'',
                                           ''ADJACENT_ARITHMETIC_SEQUENCE_2'']\<rparr>]"

text \<open>
  Inputs of a walk over a frame of two columns in which row 7 is blank. No cell rule and
  no line rule fires on any row, so every scored row has confidences 0 and 0; the
  first-data-line search left every row with the confidences 0.9 and 0.1; the
  confidence of the last data line is 1 wherever the walk ends.
\<close>

definition ex_env :: walk_env where
  "ex_env =
     \<lparr>env_args = ex_params, env_fuzzy_rules = ex_rules, env_columns = [0, 1],
      env_blank_lines = [7], env_sub_headers = [], env_aggregation_rows = [],
      env_headers_discovered = [],
      env_data_confidence = (\<lambda>r. Some (9/10)),
      env_not_data_confidence = (\<lambda>r. Some (1/10)),
      env_downwards_data_rules_fired = (\<lambda>r. Some \<lparr>data_cells = Map.empty, data_line = Some []\<rparr>),
      env_downwards_not_data_rules_fired =
        (\<lambda>r. Some \<lparr>not_data_cells = Map.empty, not_data_line = Some []\<rparr>),
      env_footnote_keywords = [''note'', ''source''],
      env_predict_line_label = (\<lambda>d n. if d > n then ''DATA'' else ''NOT_DATA''),
      env_collect_line_rules =
        (\<lambda>accepted seen l.
           (\<lambda>c. Some \<lparr>agreements = [], summary_strength = 0, null_equivalent = False,
                       aggregate = False\<rparr>,
            \<lambda>c. Some \<lparr>disagreements = [], disagreement_summary_strength = 0\<rparr>)),
      env_last_data_line_confidence = (\<lambda>ldl. Inr 1)\<rparr>"

definition ex_row :: "int \<Rightarrow> line" where
  "ex_row n = \<lparr>line_label = n, line_cells = [Some ''x'', Some ''1'']\<rparr>"

definition ex_blank_row :: line where
  "ex_blank_row = \<lparr>line_label = 7, line_cells = [None, None]\<rparr>"

text \<open>The state after three accepted rows of width \<open>w\<close>.\<close>

definition ex_state :: "nat \<Rightarrow> walk_state" where
  "ex_state w = \<lparr>line_counter = 3, predicted_ldl = 3, data_index = [3, 2, 1],
     certain_data_widths = [w, w, w], probation = [], collected = []\<rparr>"

text \<open>
  Two tables. The first has header row 0, data rows 1 to 3 and no subheader. The second
  was found from offset 4: no header, data rows 5 to 9 with the subheader 7 over rows 8
  and 9; row 4 is above its data and is not a header row.
\<close>

definition ex_head :: table where
  "ex_head = \<lparr>top_boundary = 0, bottom_boundary = 3, data_start = 1, data_end = 3,
     header = [0], footnotes = [], subheader_scope = Map.empty,
     aggregation_scope = Map.empty, data_end_confidence = 1\<rparr>"

definition ex_tail :: table where
  "ex_tail = \<lparr>top_boundary = 4, bottom_boundary = 9, data_start = 5, data_end = 9,
     header = [], footnotes = [], subheader_scope = [7 \<mapsto> Rows [8, 9]],
     aggregation_scope = Map.empty, data_end_confidence = 1\<rparr>"

text \<open>
  A frame of four rows in which row 2 holds a group label and nothing else, and
  predictions that find its first data line at row 1 under the header row 0, and
  nothing from any later offset. The first search for subheaders found row 2, which the
  second search has as its only candidate once the data reach it; no aggregation row
  is scoped, and the candidate does not score as data against the first-column values
  of rows 1 and 3.
\<close>

definition ex_group_row :: line where
  "ex_group_row = \<lparr>line_label = 2, line_cells = [Some ''Group'', None]\<rparr>"

definition ex_frame :: "line list" where
  "ex_frame = [ex_row 0, ex_row 1, ex_group_row, ex_row 3]"

definition ex_predict :: "int \<Rightarrow> nat \<Rightarrow> prediction" where
  "ex_predict file_offset counter =
     \<lparr>pat_first_data_line = (if file_offset = 0 then 1 else - 1),
      predicted_pat_header_indexes = (if file_offset = 0 then [0] else []),
      candidate_pat_sub_headers = [],
      walk_inputs = ex_env\<lparr>env_sub_headers := [2]\<rparr>,
      first_column_data_values = (\<lambda>ldl. [''x'', ''x'']),
      scoped_sub_headers = (\<lambda>ldl. []),
      scoped_candidates = (\<lambda>ldl. if 2 \<le> ldl then [2] else []),
      scope_before = (\<lambda>ldl. Map.empty),
      scored_as_data = (\<lambda>ldl r. Inr False),
      aggregations = (\<lambda>ldl. Map.empty)\<rparr>"

text \<open>The table this frame holds: row 2 is a subheader over row 3.\<close>

definition ex_found :: table where
  "ex_found = \<lparr>top_boundary = 0, bottom_boundary = 3, data_start = 1, data_end = 3,
     header = [0], footnotes = [], subheader_scope = [2 \<mapsto> Rows [3]],
     aggregation_scope = Map.empty, data_end_confidence = 1\<rparr>"

section \<open>Properties of the scorer\<close>

lemma event_score_weights:
  assumes "event_score E R lb = Inr es"
  shows "snd ` set es = {w. \<exists>e \<in> set E. \<exists>r. R e = Some r \<and> weight r = Some w \<and> lb \<le> w}"
  using assms
proof (induction E arbitrary: es)
  case Nil
  then show ?case by simp
next
  case (Cons e E)
  from Cons.prems obtain r where r: "R e = Some r"
    by (auto split: option.splits)
  from Cons.prems r obtain rest where rest: "event_score E R lb = Inr rest"
    by (auto split: sum.splits)
  note IH = Cons.IH [OF rest]
  show ?case
  proof (cases "weight r")
    case None
    with Cons.prems r rest have "es = rest" by simp
    with IH None r show ?thesis by auto
  next
    case (Some w)
    show ?thesis
    proof (cases "lb \<le> w")
      case True
      with Cons.prems r rest Some have "es = (e, w) # rest" by simp
      with IH Some r True show ?thesis by auto
    next
      case False
      with Cons.prems r rest Some have "es = rest" by simp
      with IH Some r False show ?thesis by auto
    qed
  qed
qed

lemma event_score_total:
  assumes "set E \<subseteq> dom R"
  shows "\<exists>es. event_score E R lb = Inr es"
  using assms
  by (induction E) (auto split: option.splits sum.splits)

lemma hd_sort_desc:
  fixes es :: "(string \<times> real) list"
  assumes "es \<noteq> []"
  shows "snd (hd (sort_key (\<lambda>x. - snd x) es)) = Max (snd ` set es)"
proof -
  let ?f = "\<lambda>x::string \<times> real. - snd x"
  let ?s = "sort_key ?f es"
  from assms have ne: "?s \<noteq> []"
    by (metis length_0_conv length_sort)
  then obtain y ys where s: "?s = y # ys" by (cases ?s) auto
  have srt: "sorted (map ?f ?s)" by (rule sorted_sort_key)
  have mem: "set ?s = set es" by simp
  have "y \<in> set es" using s mem by (metis list.set_intros(1))
  moreover have "\<forall>z \<in> set es. snd z \<le> snd y"
  proof
    fix z assume "z \<in> set es"
    then have "z \<in> set (y # ys)" using s mem by simp
    with srt s show "snd z \<le> snd y" by auto
  qed
  ultimately have "Max (snd ` set es) = snd y"
    by (intro Max_eqI) auto
  with s show ?thesis by simp
qed

text \<open>
  C5. For every fired-event list \<open>E\<close> whose events are all in the catalogue \<open>R\<close>,
  \<open>max_score E R lb\<close> returns the maximum weight over the fired rules whose weight is
  non-null and at least \<open>lb\<close>, and \<open>0\<close> when no fired rule qualifies (in particular
  when \<open>E\<close> is empty): a fired rule with a null or below-bound weight contributes
  nothing and does not veto.
\<close>

theorem max_score_spec:
  assumes "set E \<subseteq> dom R"
  shows "max_score E R lb =
           Inr (let W = {w. \<exists>e \<in> set E. \<exists>r. R e = Some r \<and> weight r = Some w \<and> lb \<le> w}
                in if W = {} then 0 else Max W)"
proof -
  from event_score_total [OF assms] obtain es where es: "event_score E R lb = Inr es"
    by blast
  define W where "W = {w. \<exists>e \<in> set E. \<exists>r. R e = Some r \<and> weight r = Some w \<and> lb \<le> w}"
  have W: "snd ` set es = W"
    unfolding W_def by (rule event_score_weights [OF es])
  have "max_score E R lb = Inr (if W = {} then 0 else Max W)"
  proof (cases "E = []")
    case True
    then have "W = {}" by (simp add: W_def)
    with True show ?thesis by (simp add: max_score_def)
  next
    case False
    show ?thesis
    proof (cases "es = []")
      case True
      with W have "W = {}" by simp
      with False es True show ?thesis by (simp add: max_score_def)
    next
      case ne: False
      then have "snd ` set es \<noteq> {}" by simp
      then have "W \<noteq> {}" unfolding W .
      moreover have "snd (hd (sort_key (\<lambda>x. - snd x) es)) = Max W"
        using hd_sort_desc [OF ne] W by simp
      ultimately show ?thesis using False es ne by (simp add: max_score_def)
    qed
  qed
  then show ?thesis unfolding W_def Let_def .
qed

theorem max_score_spec_witness:
  "set [''A'', ''B'', ''C''] \<subseteq> dom [''A'' \<mapsto> \<lparr>weight = Some (1/2)\<rparr>, ''B'' \<mapsto> \<lparr>weight = None\<rparr>, ''C'' \<mapsto> \<lparr>weight = Some (3/10)\<rparr>] \<and>
   max_score [''A'', ''B'', ''C''] [''A'' \<mapsto> \<lparr>weight = Some (1/2)\<rparr>, ''B'' \<mapsto> \<lparr>weight = None\<rparr>, ''C'' \<mapsto> \<lparr>weight = Some (3/10)\<rparr>] (2/5) = Inr (1/2)"
proof -
  let ?R = "[''A'' \<mapsto> \<lparr>weight = Some (1/2)\<rparr>, ''B'' \<mapsto> \<lparr>weight = None\<rparr>, ''C'' \<mapsto> \<lparr>weight = Some (3/10::real)\<rparr>]"
  have sub: "set [''A'', ''B'', ''C''] \<subseteq> dom ?R" by simp
  have W: "{w. \<exists>e \<in> set [''A'', ''B'', ''C'']. \<exists>r. ?R e = Some r \<and> weight r = Some w \<and> 2/5 \<le> w} = {1/2}"
    by auto
  show ?thesis
    using sub max_score_spec [OF sub, of "2/5"] unfolding W Let_def by simp
qed


lemma prod_list_pow_count:
  fixes f :: "'a \<Rightarrow> real"
  assumes "distinct ys" "set xs \<subseteq> set ys"
  shows "prod_list (map (\<lambda>y. f y ^ count_list xs y) ys) = prod_list (map f xs)"
  using assms(2)
proof (induction xs)
  case Nil
  show ?case by (induction ys) simp_all
next
  case (Cons a xs)
  then have a: "a \<in> set ys" and sub: "set xs \<subseteq> set ys" by auto
  have "prod_list (map (\<lambda>y. f y ^ count_list (a # xs) y) ys)
      = (\<Prod>y\<in>set ys. f y ^ count_list (a # xs) y)"
    using assms(1) by (simp add: prod.distinct_set_conv_list)
  also have "\<dots> = (\<Prod>y\<in>set ys. f y ^ count_list xs y * (if y = a then f a else 1))"
    by (rule prod.cong) auto
  also have "\<dots> = (\<Prod>y\<in>set ys. f y ^ count_list xs y) * (\<Prod>y\<in>set ys. (if y = a then f a else 1))"
    by (simp add: prod.distrib)
  also have "(\<Prod>y\<in>set ys. (if y = a then f a else 1)) = f a"
    using a by (simp add: prod.delta)
  also have "(\<Prod>y\<in>set ys. f y ^ count_list xs y) = prod_list (map (\<lambda>y. f y ^ count_list xs y) ys)"
    using assms(1) by (simp add: prod.distinct_set_conv_list)
  also have "\<dots> = prod_list (map f xs)" by (rule Cons.IH [OF sub])
  finally show ?case by (simp add: mult.commute)
qed

lemma probabilistic_sum_prod:
  "probabilistic_sum xs = 1 - prod_list (map (\<lambda>s. 1 - s) xs)"
proof (cases "xs = []")
  case True
  then show ?thesis by (simp add: probabilistic_sum_def)
next
  case False
  have "prod_list (map (\<lambda>(score, count). (1 - score) ^ count) (score_counts xs))
      = prod_list (map (\<lambda>y. (1 - y) ^ count_list xs y) (rev (remdups (rev xs))))"
    by (simp add: score_counts_def comp_def)
  also have "\<dots> = prod_list (map (\<lambda>s. 1 - s) xs)"
    by (rule prod_list_pow_count) auto
  finally show ?thesis using False by (simp add: probabilistic_sum_def)
qed

lemma prod_list_nonneg_real:
  fixes xs :: "real list"
  assumes "\<forall>x \<in> set xs. 0 \<le> x"
  shows "0 \<le> prod_list xs"
  using assms by (induction xs) auto

text \<open>
  C3. For every list of evidence scores the row confidence is \<open>1 - \<Prod>(1 - s)\<close> over the
  scores with multiplicity (\<open>0\<close> for the empty list); and when every score already in
  the list is at most \<open>1\<close> (weights and damped weights are), appending one more
  positive score never decreases the confidence.
\<close>

theorem probabilistic_sum_or_monotone:
  "probabilistic_sum xs = 1 - prod_list (map (\<lambda>s. 1 - s) xs) \<and>
   ((\<forall>s \<in> set xs. s \<le> 1) \<and> 0 < t \<longrightarrow> probabilistic_sum xs \<le> probabilistic_sum (xs @ [t]))"
proof (intro conjI impI)
  show "probabilistic_sum xs = 1 - prod_list (map (\<lambda>s. 1 - s) xs)"
    by (rule probabilistic_sum_prod)
next
  assume h: "(\<forall>s \<in> set xs. s \<le> 1) \<and> 0 < t"
  define P where "P = prod_list (map (\<lambda>s. 1 - s) xs)"
  from h have P: "0 \<le> P"
    unfolding P_def by (intro prod_list_nonneg_real) auto
  have app: "probabilistic_sum (xs @ [t]) = 1 - P * (1 - t)"
    by (simp add: probabilistic_sum_prod P_def)
  have one: "probabilistic_sum xs = 1 - P"
    unfolding P_def by (rule probabilistic_sum_prod)
  from P h have "0 \<le> P * t" by simp
  then have "1 - P \<le> 1 - P * (1 - t)" by (simp add: algebra_simps)
  then show "probabilistic_sum xs \<le> probabilistic_sum (xs @ [t])"
    by (simp only: app one)
qed

theorem probabilistic_sum_or_monotone_witness:
  "(1/2::real) \<le> 1 \<and> (1/4::real) \<le> 1 \<and> (0::real) < 1/2 \<and>
   probabilistic_sum [1/2, 1/2, 1/4] = 13/16 \<and>
   probabilistic_sum [1/2, 1/2, 1/4] \<le> probabilistic_sum ([1/2, 1/2, 1/4] @ [1/2])"
  using probabilistic_sum_or_monotone [of "[1/2, 1/2, 1/4]" "1/2"] by simp

section \<open>Properties of \<^verbatim>\<open>get_class_confidences\<close>\<close>

lemma prior_data_cell_classified:
  assumes "dom dlc \<subseteq> dom ndlc"
  shows "prior_data_cell drf dlc ndlc r c = Inr (classified_data_cell drf dlc ndlc r c)"
proof (cases "dlc r")
  case None
  then show ?thesis
    by (simp add: prior_data_cell_def classified_data_cell_def split: option.splits)
next
  case (Some d)
  with assms obtain n where "ndlc r = Some n" by blast
  with Some show ?thesis
    by (simp add: prior_data_cell_def classified_data_cell_def split: option.splits)
qed

text \<open>
  C6 (amended). When the two confidence dictionaries have the same rows, the agreements
  and summary strength scored for a cell are: those of the same column two rows up, when
  the cell's own summary strength is 0, the cell is an aggregate and that row has the
  column and was classified data; otherwise those of the same column in the prior row,
  when \<^verbatim>\<open>impute_nulls\<close> is set, the cell is null-equivalent or its summary strength is
  exactly 1, and the prior row has the column and was classified data; otherwise the
  cell's own.
\<close>

theorem impute_agreements_spec:
  assumes "dom dlc \<subseteq> dom ndlc"
  shows "impute_agreements params drf dlc ndlc row_index column_index own =
    Inr (case (if summary_strength own = 0 \<and> aggregate own
               then classified_data_cell drf dlc ndlc (row_index - 2) column_index else None) of
           Some c2 \<Rightarrow> (agreements c2, summary_strength c2)
         | None \<Rightarrow>
            (case (if (null_equivalent own \<or> summary_strength own = 1) \<and> impute_nulls params
                   then classified_data_cell drf dlc ndlc (row_index - 1) column_index else None) of
               Some c1 \<Rightarrow> (agreements c1, summary_strength c1)
             | None \<Rightarrow> (agreements own, summary_strength own)))"
  by (auto simp add: impute_agreements_def bind_err_def prior_data_cell_classified [OF assms]
      split: option.splits)

theorem impute_agreements_spec_witness:
  "dom ex_dlc \<subseteq> dom ex_ndlc \<and>
   impute_agreements ex_params ex_drf ex_dlc ex_ndlc 1 0 ex_cell_null = Inr ([''A''], 3)"
proof -
  have d: "dom ex_dlc \<subseteq> dom ex_ndlc" by (simp add: ex_dlc_def ex_ndlc_def)
  show ?thesis
    using d impute_agreements_spec [OF d, of ex_params ex_drf 1 0 ex_cell_null]
    by (simp add: classified_data_cell_def ex_drf_def ex_dlc_def ex_ndlc_def ex_params_def
        ex_cell_null_def ex_cell_above_def)
qed

text \<open>
  C6 as stated fails for a cell that is not null-equivalent and has summary strength 0:
  the strength is at most 1, imputation is enabled and the prior row was classified
  data, yet the cell keeps its own (empty) agreements instead of the prior row's.
\<close>

theorem impute_empty_window_counterexample:
  "summary_strength ex_cell_empty_window \<le> 1 \<and> impute_nulls ex_params \<and>
   ex_dlc 0 = Some (9/10) \<and> ex_ndlc 0 = Some (1/10) \<and>
   data_cells (the (ex_drf 0)) 0 = Some ex_cell_above \<and>
   agreements ex_cell_above = [''A''] \<and>
   impute_agreements ex_params ex_drf ex_dlc ex_ndlc 1 0 ex_cell_empty_window = Inr ([], 0)"
  by (simp add: impute_agreements_def bind_err_def ex_drf_def ex_dlc_def ex_ndlc_def ex_params_def
        ex_cell_empty_window_def ex_cell_above_def)

lemma data_line_loop_filter:
  assumes "set rules \<subseteq> dom R"
  shows "data_line_loop R lb rules ev = Inr (ev @ map (weight_of R) (filter (above_bound R lb) rules))"
  using assms
proof (induction rules arbitrary: ev)
  case Nil
  then show ?case by simp
next
  case (Cons r rules)
  then obtain x where x: "R r = Some x" by auto
  from Cons have IH: "\<And>ev. data_line_loop R lb rules ev =
      Inr (ev @ map (weight_of R) (filter (above_bound R lb) rules))" by simp
  show ?case
  proof (cases "above_bound R lb r")
    case True
    then obtain w where "weight x = Some w" "lb < w"
      using x by (auto simp: above_bound_def split: option.splits)
    moreover from this x have "weight_of R r = w" by (simp add: weight_of_def)
    ultimately show ?thesis using True x IH by (simp add: bind_err_def lookup_def)
  next
    case False
    then have "data_line_loop R lb (r # rules) ev = data_line_loop R lb rules ev"
      using x by (auto simp: bind_err_def lookup_def above_bound_def split: option.splits)
    then show ?thesis using False IH by simp
  qed
qed

lemma rename_event_renamed:
  assumes "startswith e ''ADJACENT_ARITHMETIC_SEQUENCE'' \<longrightarrow> e \<in> dom R"
  shows "rename_event R e = Inr (renamed R e)"
  using assms
  by (auto simp: rename_event_def renamed_def bind_err_def lookup_def Let_def split: option.splits)

lemma not_data_line_loop_filter:
  assumes "\<forall>e \<in> set events. startswith e ''ADJACENT_ARITHMETIC_SEQUENCE'' \<longrightarrow> e \<in> dom R"
  shows "not_data_line_loop R lb bd events ev =
     Inr (ev @ map (weight_of R)
                 (filter (above_bound R lb)
                    (map (renamed R)
                       (filter (\<lambda>e. \<not> (e = ''UP_TO_FIRST_COLUMN_COMPLETE_CONSISTENTLY'' \<and> \<not> bd)) events))))"
  using assms
proof (induction events arbitrary: ev)
  case Nil
  then show ?case by simp
next
  case (Cons e events)
  have ren: "rename_event R e = Inr (renamed R e)"
    using Cons.prems by (intro rename_event_renamed) simp
  from Cons have IH: "\<And>ev. not_data_line_loop R lb bd events ev =
     Inr (ev @ map (weight_of R)
                 (filter (above_bound R lb)
                    (map (renamed R)
                       (filter (\<lambda>e. \<not> (e = ''UP_TO_FIRST_COLUMN_COMPLETE_CONSISTENTLY'' \<and> \<not> bd)) events))))"
    by simp
  show ?case
  proof (cases "e = ''UP_TO_FIRST_COLUMN_COMPLETE_CONSISTENTLY'' \<and> \<not> bd")
    case True
    then show ?thesis using IH by simp
  next
    case False
    show ?thesis
    proof (cases "above_bound R lb (renamed R e)")
      case True
      then obtain r w where "R (renamed R e) = Some r" "weight r = Some w" "lb < w"
        by (auto simp: above_bound_def split: option.splits)
      moreover from this have "weight_of R (renamed R e) = w"
        by (simp add: weight_of_def)
      ultimately show ?thesis
        using False True ren IH by (auto simp: bind_err_def)
    next
      case nab: False
      then have "not_data_line_loop R lb bd (e # events) ev = not_data_line_loop R lb bd events ev"
        using False ren
        by (auto simp: bind_err_def above_bound_def split: option.splits)
      then show ?thesis using False nab IH by auto
    qed
  qed
qed

text \<open>
  C8 (amended). In \<^verbatim>\<open>"values_and_lines"\<close> mode the weight of a fired data line rule is
  appended to the evidence exactly when it is non-null and strictly greater than
  \<^verbatim>\<open>weight_lower_bound\<close>. On the not-data side, weights are appended only when the frame
  has more than one column; \<^verbatim>\<open>UP_TO_FIRST_COLUMN_COMPLETE_CONSISTENTLY\<close> is skipped once
  \<^verbatim>\<open>before_data\<close> is false; an untrained \<^verbatim>\<open>ADJACENT_ARITHMETIC_SEQUENCE_k\<close> stands for its
  successor; and the weight of the resulting event is appended exactly when that event is
  in the catalogue with a non-null weight strictly greater than
  \<^verbatim>\<open>not_data_weight_lower_bound\<close>.
\<close>

theorem line_evidence_strict:
  assumes "weight_input params = ''values_and_lines''"
    and "drf row_index = Some rw" and "data_line rw = Some rules"
    and "set rules \<subseteq> dom (line_data fr)"
    and "ndrf row_index = Some nrw" and "not_data_line nrw = Some events"
    and "\<forall>e \<in> set events. startswith e ''ADJACENT_ARITHMETIC_SEQUENCE'' \<longrightarrow> e \<in> dom (line_not_data fr)"
  shows "line_is_data_evidence params fr drf row_index ev =
           Inr (ev @ map (weight_of (line_data fr))
                  (filter (above_bound (line_data fr) (weight_lower_bound params)) rules))
       \<and> line_not_data_evidence params fr ncols bd ndrf row_index nev =
           Inr (if ncols > 1 then
                  nev @ map (weight_of (line_not_data fr))
                    (filter (above_bound (line_not_data fr) (not_data_weight_lower_bound params))
                       (map (renamed (line_not_data fr))
                          (filter (\<lambda>e. \<not> (e = ''UP_TO_FIRST_COLUMN_COMPLETE_CONSISTENTLY'' \<and> \<not> bd))
                             events)))
                else nev)"
proof
  show "line_is_data_evidence params fr drf row_index ev =
           Inr (ev @ map (weight_of (line_data fr))
                  (filter (above_bound (line_data fr) (weight_lower_bound params)) rules))"
    using assms(1-3) data_line_loop_filter [OF assms(4)]
    by (simp add: line_is_data_evidence_def bind_err_def lookup_def)
next
  show "line_not_data_evidence params fr ncols bd ndrf row_index nev =
           Inr (if ncols > 1 then
                  nev @ map (weight_of (line_not_data fr))
                    (filter (above_bound (line_not_data fr) (not_data_weight_lower_bound params))
                       (map (renamed (line_not_data fr))
                          (filter (\<lambda>e. \<not> (e = ''UP_TO_FIRST_COLUMN_COMPLETE_CONSISTENTLY'' \<and> \<not> bd))
                             events)))
                else nev)"
    using assms(1,5,6) not_data_line_loop_filter [OF assms(7)]
    by (simp add: line_not_data_evidence_def bind_err_def lookup_def)
qed

lemma renamed_ex: "renamed (line_not_data ex_rules) ''ADJACENT_ARITHMETIC_SEQUENCE_2'' = ''ADJACENT_ARITHMETIC_SEQUENCE_3''"
  by (simp add: renamed_def ex_rules_def startswith_def isdigit_def digit_value_def digit_str_def)

theorem line_evidence_strict_witness:
  "weight_input ex_params = ''values_and_lines'' \<and>
   line_is_data_evidence ex_params ex_rules ex_drf 1 [] = Inr [7/10] \<and>
   line_not_data_evidence ex_params ex_rules 2 False ex_ndrf 1 [] = Inr [9/10]"
proof -
  have 1: "weight_input ex_params = ''values_and_lines''" by (simp add: ex_params_def)
  have 2: "ex_drf 1 = Some \<lparr>data_cells = [0 \<mapsto> ex_cell_empty_window], data_line = Some [''R1'', ''R2'']\<rparr>"
    by (simp add: ex_drf_def)
  have 3: "data_line \<lparr>data_cells = [0 \<mapsto> ex_cell_empty_window], data_line = Some [''R1'', ''R2'']\<rparr>
             = Some [''R1'', ''R2'']" by simp
  have 4: "set [''R1'', ''R2''] \<subseteq> dom (line_data ex_rules)" by (simp add: ex_rules_def)
  have 5: "ex_ndrf 1 = Some \<lparr>not_data_cells = Map.empty,
                     not_data_line = Some [''UP_TO_FIRST_COLUMN_COMPLETE_CONSISTENTLY'',
                                           ''ADJACENT_ARITHMETIC_SEQUENCE_2'']\<rparr>"
    by (simp add: ex_ndrf_def)
  have 6: "not_data_line \<lparr>not_data_cells = Map.empty,
                     not_data_line = Some [''UP_TO_FIRST_COLUMN_COMPLETE_CONSISTENTLY'',
                                           ''ADJACENT_ARITHMETIC_SEQUENCE_2'']\<rparr>
            = Some [''UP_TO_FIRST_COLUMN_COMPLETE_CONSISTENTLY'', ''ADJACENT_ARITHMETIC_SEQUENCE_2'']"
    by simp
  have 7: "\<forall>e \<in> set [''UP_TO_FIRST_COLUMN_COMPLETE_CONSISTENTLY'', ''ADJACENT_ARITHMETIC_SEQUENCE_2''].
             startswith e ''ADJACENT_ARITHMETIC_SEQUENCE'' \<longrightarrow> e \<in> dom (line_not_data ex_rules)"
    by (simp add: ex_rules_def)
  have a: "filter (above_bound (line_data ex_rules) (weight_lower_bound ex_params)) [''R1'', ''R2''] = [''R2'']"
    by (simp add: above_bound_def ex_rules_def ex_params_def)
  have b: "above_bound (line_not_data ex_rules) (not_data_weight_lower_bound ex_params)
             ''ADJACENT_ARITHMETIC_SEQUENCE_3''"
    by (simp add: above_bound_def ex_rules_def ex_params_def)
  have c: "weight_of (line_data ex_rules) ''R2'' = 7/10"
          "weight_of (line_not_data ex_rules) ''ADJACENT_ARITHMETIC_SEQUENCE_3'' = 9/10"
    by (simp_all add: weight_of_def ex_rules_def)
  show ?thesis
    using 1 line_evidence_strict [where drf = ex_drf and ndrf = ex_ndrf and row_index = 1
        and ev = "[]" and nev = "[]" and ncols = 2 and bd = False, OF 1 2 3 4 5 6 7] renamed_ex a b c
    by simp
qed

text \<open>
  C8 as stated fails for a weight equal to the bound: the fired rule \<^verbatim>\<open>R1\<close> weighs
  exactly \<^verbatim>\<open>weight_lower_bound\<close> and is not appended; only \<^verbatim>\<open>R2\<close> is.
\<close>

theorem line_weight_at_bound_counterexample:
  "weight_input ex_params = ''values_and_lines'' \<and>
   data_line (the (ex_drf 1)) = Some [''R1'', ''R2''] \<and>
   weight (the (line_data ex_rules ''R1'')) = Some (2/5) \<and>
   weight_lower_bound ex_params = 2/5 \<and>
   line_is_data_evidence ex_params ex_rules ex_drf 1 [] = Inr [7/10]"
  by (simp add: line_is_data_evidence_def bind_err_def lookup_def ex_drf_def ex_params_def ex_rules_def)

section \<open>Incremental extension of the window summary\<close>

text \<open>
  C4. Incremental extension should give the summary a batch recomputation over the
  extended window gives. For the \<^verbatim>\<open>disagreement_summary_strength\<close> counter it does not:
  with a window of one number below the candidate, extended by a second number, the
  incremental summary still counts 1 non-empty train, the batch summary counts 2.
\<close>

theorem not_data_increment_strength_stale:
  "map_sum id nd_disagreement_summary_strength
     (not_data_increment pu (not_data_initialize pu [ex_sig]) [ex_sig, ex_sig, ex_sig]) = Inr 1
   \<and> nd_disagreement_summary_strength (not_data_initialize pu [ex_sig, ex_sig]) = 2"
  by (simp add: not_data_increment_def not_data_initialize_def ex_sig_def)

section \<open>Properties of the top-down walk\<close>

lemma accept_ldl [simp]: "predicted_ldl (accept st l) = line_label l"
  by (simp add: accept_def)

lemma decide_spec:
  assumes "env_data_confidence env (line_label l) = Some d"
    and "env_not_data_confidence env (line_label l) = Some n"
  shows "decide env st l dc ndc =
     Inr (if (dc > 0 \<and> dc \<ge> ndc) \<or> width_of_data st l
             \<or> (line_label l - 1 \<notin> set (probation st) \<and> env_predict_line_label env d n = ''DATA'')
          then Continue (accept st l)
          else if line_label l - 1 \<notin> set (probation st)
                  \<and> line_label l - 1 \<notin> set (env_blank_lines env) \<and> dc < ndc
          then Continue (st\<lparr>probation := probation st @ [line_label l]\<rparr>)
          else Break st)"
proof (cases "(dc > 0 \<and> dc \<ge> ndc) \<or> width_of_data st l")
  case True
  then show ?thesis by (auto simp: decide_def)
next
  case False
  then have a: "\<not> (dc > 0 \<and> dc \<ge> ndc)" and b: "\<not> width_of_data st l" by auto
  show ?thesis
  proof (cases "env_predict_line_label env d n = ''DATA''")
    case True
    with a b assms show ?thesis
      by (auto simp: decide_def bind_err_def lookup_def Let_def)
  next
    case False
    with a b assms show ?thesis
      by (auto simp: decide_def bind_err_def lookup_def Let_def)
  qed
qed

lemma decide_cases:
  assumes "decide env st l dc ndc = Inr out"
  shows "out = Continue (accept st l)
       \<or> out = Continue (st\<lparr>probation := probation st @ [line_label l]\<rparr>)
       \<or> out = Break st"
proof (cases "(dc > 0 \<and> dc \<ge> ndc) \<or> width_of_data st l")
  case True
  then have "decide env st l dc ndc = Inr (Continue (accept st l))"
    by (auto simp: decide_def)
  with assms show ?thesis by simp
next
  case False
  then have a: "\<not> (dc > 0 \<and> dc \<ge> ndc)" and b: "\<not> width_of_data st l" by auto
  from assms a b obtain d where d: "env_data_confidence env (line_label l) = Some d"
    by (cases "env_data_confidence env (line_label l)")
       (simp_all add: decide_def bind_err_def lookup_def)
  from assms a b d obtain n where n: "env_not_data_confidence env (line_label l) = Some n"
    by (cases "env_not_data_confidence env (line_label l)")
       (simp_all add: decide_def bind_err_def lookup_def)
  from assms show ?thesis
    unfolding decide_spec [OF d n] by (simp split: if_splits)
qed

lemma decide_ldl:
  assumes "decide env st l dc ndc = Inr out"
  shows "case out of
           Break s \<Rightarrow> predicted_ldl s = predicted_ldl st
         | Continue s \<Rightarrow> predicted_ldl s = predicted_ldl st \<or> predicted_ldl s = line_label l"
  using decide_cases [OF assms] by auto

lemma walk_step_cases:
  assumes "walk_step env st l = Inr out"
  shows "(line_label l \<in> set (env_blank_lines env)
            \<and> out = Break (st\<lparr>line_counter := line_counter st + 1\<rparr>))
       \<or> (line_label l \<notin> set (env_blank_lines env)
            \<and> (out = Continue (st\<lparr>line_counter := line_counter st + 1\<rparr>)
                \<or> out = Break (st\<lparr>line_counter := line_counter st + 1\<rparr>)
                \<or> out = Continue (accept (st\<lparr>line_counter := line_counter st + 1\<rparr>) l)
                \<or> (\<exists>dc ndc. decide env (st\<lparr>line_counter := line_counter st + 1,
                         collected := collected st @ [line_label l]\<rparr>) l dc ndc = Inr out)))"
proof (cases "line_label l \<in> set (env_blank_lines env)")
  case True
  with assms show ?thesis
    by (simp add: walk_step_def Let_def split: if_splits)
next
  case False
  with assms show ?thesis
    unfolding walk_step_def Let_def bind_err_def
    by (simp split: if_splits sum.splits prod.splits) blast
qed

lemma walk_step_ldl:
  assumes "walk_step env st l = Inr out"
  shows "case out of
           Break s \<Rightarrow> predicted_ldl s = predicted_ldl st
         | Continue s \<Rightarrow> line_label l \<notin> set (env_blank_lines env)
              \<and> (predicted_ldl s = predicted_ldl st \<or> predicted_ldl s = line_label l)"
proof -
  from walk_step_cases [OF assms] consider
      (blank) "line_label l \<in> set (env_blank_lines env)"
        "out = Break (st\<lparr>line_counter := line_counter st + 1\<rparr>)"
    | (simple) "line_label l \<notin> set (env_blank_lines env)"
        "out = Continue (st\<lparr>line_counter := line_counter st + 1\<rparr>)
          \<or> out = Break (st\<lparr>line_counter := line_counter st + 1\<rparr>)
          \<or> out = Continue (accept (st\<lparr>line_counter := line_counter st + 1\<rparr>) l)"
    | (scored) dc ndc where "line_label l \<notin> set (env_blank_lines env)"
        "decide env (st\<lparr>line_counter := line_counter st + 1,
                         collected := collected st @ [line_label l]\<rparr>) l dc ndc = Inr out"
    by blast
  then show ?thesis
  proof cases
    case blank
    then show ?thesis by simp
  next
    case simple
    then show ?thesis by auto
  next
    case scored
    from decide_ldl [OF scored(2)] scored(1) show ?thesis
      by (cases out) auto
  qed
qed

lemma walk_ldl:
  assumes "walk env st ls = Inr st'"
  shows "predicted_ldl st' = predicted_ldl st
       \<or> predicted_ldl st' \<in> line_label ` set (takeWhile (\<lambda>l. line_label l \<notin> set (env_blank_lines env)) ls)"
  using assms
proof (induction ls arbitrary: st)
  case Nil
  then show ?case by simp
next
  case (Cons l ls)
  from Cons.prems obtain out where out: "walk_step env st l = Inr out"
    by (cases "walk_step env st l") auto
  show ?case
  proof (cases out)
    case (Break s)
    with Cons.prems out have "st' = s" by simp
    with walk_step_ldl [OF out] Break show ?thesis by simp
  next
    case (Continue s)
    with Cons.prems out have w: "walk env s ls = Inr st'" by simp
    from walk_step_ldl [OF out] Continue
    have nb: "line_label l \<notin> set (env_blank_lines env)"
      and s: "predicted_ldl s = predicted_ldl st \<or> predicted_ldl s = line_label l" by auto
    from Cons.IH [OF w] s nb show ?thesis by auto
  qed
qed

lemma walk_stops_at_blank:
  assumes "line_label l \<in> set (env_blank_lines env)"
  shows "walk env st (pre @ l # post) = walk env st (pre @ [l])"
proof (induction pre arbitrary: st)
  case Nil
  from assms have "walk_step env st l = Inl IndexError
      \<or> walk_step env st l = Inr (Break (st\<lparr>line_counter := line_counter st + 1\<rparr>))"
    by (simp add: walk_step_def Let_def)
  then show ?case by auto
next
  case (Cons a pre)
  then show ?case by (simp split: sum.splits walk_outcome.splits)
qed

lemma takeWhile_before:
  assumes "sorted_wrt (<) (map f xs)" and "x \<in> set (takeWhile P xs)" and "y \<in> set xs" and "\<not> P y"
  shows "f x < (f y :: int)"
proof -
  have split: "xs = takeWhile P xs @ dropWhile P xs" by simp
  have "y \<notin> set (takeWhile P xs)" using assms(4) by (auto dest: set_takeWhileD)
  moreover have "set xs = set (takeWhile P xs) \<union> set (dropWhile P xs)"
    by (subst split) (simp only: set_append)
  ultimately have y: "y \<in> set (dropWhile P xs)" using assms(3) by blast
  have "sorted_wrt (<) (map f (takeWhile P xs @ dropWhile P xs))"
    using assms(1) by (simp only: takeWhile_dropWhile_id)
  then have "\<forall>a \<in> set (takeWhile P xs). \<forall>b \<in> set (dropWhile P xs). f a < f b"
    by (simp only: map_append sorted_wrt_append set_map) blast
  with assms(2) y show ?thesis by blast
qed

text \<open>
  C10 (amended). A row listed in \<^verbatim>\<open>blank_lines\<close> ends the walk when it is reached: the rows
  after it play no part in the result. With row labels increasing along the frame, the
  returned last data line is strictly smaller than every blank row after the predicted
  first data line, in particular than the first one. When the predicted first data line
  is itself blank, no row of the candidate data, which starts at the first data line,
  comes before it: the walk stops on it, a row without a cell raising at
  \<^verbatim>\<open>row_values[0]\<close>, and the function returns the predicted first data line, with the
  confidence \<^verbatim>\<open>last_data_line_confidence\<close> gives for it, whenever that call returns.
\<close>

theorem blank_line_ends_walk:
  assumes "line_label l \<in> set (env_blank_lines env)"
    and "sorted_wrt (<) (map line_label (pre @ l # post))"
  shows "predict_last_data_line_top_down env predicted_fdl (pre @ l # post)
           = predict_last_data_line_top_down env predicted_fdl (pre @ [l])
       \<and> (predicted_fdl < line_label l \<longrightarrow>
            (case predict_last_data_line_top_down env predicted_fdl (pre @ l # post) of
               Inl e \<Rightarrow> True
             | Inr (ldl, confidence) \<Rightarrow> ldl < line_label l))
       \<and> (line_label l = predicted_fdl \<and> (\<forall>r \<in> set pre. predicted_fdl \<le> line_label r) \<longrightarrow>
            predict_last_data_line_top_down env predicted_fdl (pre @ l # post)
              = (if line_cells l = [] then Inl IndexError
                 else bind_err (env_last_data_line_confidence env predicted_fdl)
                        (\<lambda>confidence. Inr (predicted_fdl, confidence))))"
proof (intro conjI impI)
  show "predict_last_data_line_top_down env predicted_fdl (pre @ l # post)
           = predict_last_data_line_top_down env predicted_fdl (pre @ [l])"
    unfolding predict_last_data_line_top_down_def
    by (subst walk_stops_at_blank [OF assms(1), of _ pre post]) (rule refl)
next
  let ?init = "\<lparr>line_counter = 0, predicted_ldl = predicted_fdl, data_index = [],
                  certain_data_widths = [], probation = [], collected = []\<rparr>"
  assume below: "predicted_fdl < line_label l"
  show "case predict_last_data_line_top_down env predicted_fdl (pre @ l # post) of
             Inl e \<Rightarrow> True
           | Inr (ldl, confidence) \<Rightarrow> ldl < line_label l"
  proof (cases "walk env ?init (pre @ l # post)")
    case (Inl e)
    then show ?thesis by (simp add: predict_last_data_line_top_down_def bind_err_def)
  next
    case (Inr st')
    from walk_ldl [OF Inr] have "predicted_ldl st' < line_label l"
    proof
      assume "predicted_ldl st' = predicted_ldl ?init"
      with below show ?thesis by simp
    next
      assume "predicted_ldl st' \<in> line_label `
                set (takeWhile (\<lambda>l. line_label l \<notin> set (env_blank_lines env)) (pre @ l # post))"
      then obtain x where x: "x \<in> set (takeWhile (\<lambda>l. line_label l \<notin> set (env_blank_lines env)) (pre @ l # post))"
        and eq: "predicted_ldl st' = line_label x" by auto
      have "line_label x < line_label l"
        by (rule takeWhile_before [OF assms(2) x]) (use assms(1) in auto)
      with eq show ?thesis by simp
    qed
    with Inr show ?thesis
      by (simp add: predict_last_data_line_top_down_def bind_err_def split: sum.splits)
  qed
next
  let ?init = "\<lparr>line_counter = 0, predicted_ldl = predicted_fdl, data_index = [],
                  certain_data_widths = [], probation = [], collected = []\<rparr>"
  assume first: "line_label l = predicted_fdl \<and> (\<forall>r \<in> set pre. predicted_fdl \<le> line_label r)"
  have pre: "pre = []"
  proof (rule ccontr)
    assume "pre \<noteq> []"
    then obtain r where r: "r \<in> set pre" by (cases pre) auto
    with assms(2) have "line_label r < line_label l"
      by (auto simp: sorted_wrt_append)
    with first r show False by auto
  qed
  have w: "walk env ?init (l # post)
      = (if line_cells l = [] then Inl IndexError
         else Inr (?init\<lparr>line_counter := 1\<rparr>))"
    using assms(1) by (simp add: walk_step_def Let_def)
  show "predict_last_data_line_top_down env predicted_fdl (pre @ l # post)
              = (if line_cells l = [] then Inl IndexError
                 else bind_err (env_last_data_line_confidence env predicted_fdl)
                        (\<lambda>confidence. Inr (predicted_fdl, confidence)))"
    unfolding predict_last_data_line_top_down_def pre append_Nil w
    by (simp add: bind_err_def split: sum.splits)
qed

lemma ex_row_facts:
  "line_cells (ex_row n) \<noteq> []"
  "first_value (ex_row n) = ''x''"
  "\<not> label_only_row (ex_row n)"
  "\<not> all_null (ex_row n)"
  "non_empty_values (ex_row n) = 2"
  "join_comma (row_values (ex_row n)) = ''x,1''"
  by (simp_all add: ex_row_def first_value_def row_values_def lower_def lower_char_def
      startswith_def endswith_def label_only_row_def null_like_def all_null_def
      non_empty_values_def Let_def)

lemma ex_row_confidences:
  "row_confidences ex_env st (ex_row n) = Inr (0, 0)"
  by (simp add: row_confidences_def ex_env_def walk_column_scores_def bind_err_def lookup_def
      cell_score_def max_score_def ex_params_def line_not_data_evidence_def
      line_is_data_evidence_def probabilistic_sum_def score_counts_def ex_row_def)

lemma ex_row_label: "line_label (ex_row n) = n"
  by (simp add: ex_row_def)

lemma ex_blank_row_step:
  "walk_step ex_env st ex_blank_row = Inr (Break (st\<lparr>line_counter := line_counter st + 1\<rparr>))"
  by (simp add: walk_step_def Let_def ex_blank_row_def ex_env_def)

lemma ex_row_step_early:
  assumes "line_counter st < 3" and "n \<noteq> 7"
  shows "walk_step ex_env st (ex_row n)
           = Inr (Continue (accept (st\<lparr>line_counter := line_counter st + 1\<rparr>) (ex_row n)))"
proof -
  have e: "line_label (ex_row n) = n" "env_blank_lines ex_env = [7]" "env_sub_headers ex_env = []"
    by (simp_all add: ex_row_def ex_env_def)
  show ?thesis
    using assms by (simp add: walk_step_def Let_def ex_row_facts e)
qed

text \<open>
  C1 (amended). For a row with at least one cell that is not blank, not a promoted
  subheader and not matched by a footnote heuristic, whose scoring and confidence lookups
  succeed: one of the first three rows visited, or an aggregation row, is accepted. Any
  other such row is passed over when all its cells are null, ends the walk when it equals
  a discovered header, and otherwise is accepted exactly when \<open>data_conf > 0\<close> and
  \<open>data_conf \<ge> not_data_conf\<close>, or its width is the greatest width of the accepted
  rows and the row above was accepted, or the row above is not on probation and the
  first-data-line search labelled the row \<^verbatim>\<open>DATA\<close>. A row that is not accepted is put on
  probation when the row above is neither on probation nor blank and
  \<open>data_conf < not_data_conf\<close>; otherwise it ends the walk.
\<close>

theorem walk_step_acceptance:
  assumes "line_cells l \<noteq> []"
    and "line_label l \<notin> set (env_blank_lines env)"
    and "line_label l \<notin> set (env_sub_headers env)"
    and "\<not> (label_only_row l
             \<and> footnote_in_label_row (env_footnote_keywords env) l (first_value l) False)"
    and "row_confidences env (st\<lparr>line_counter := line_counter st + 1\<rparr>) l = Inr (dc, ndc)"
    and "env_data_confidence env (line_label l) = Some d"
    and "env_not_data_confidence env (line_label l) = Some n"
  shows "walk_step env st l =
    Inr (let st1 = st\<lparr>line_counter := line_counter st + 1\<rparr>;
             st2 = st1\<lparr>collected := collected st @ [line_label l]\<rparr>
         in if line_counter st < 3 \<or> line_label l \<in> set (env_aggregation_rows env)
            then Continue (accept st1 l)
            else if all_null l then Continue st1
            else if join_comma (row_values l) \<in> set (env_headers_discovered env) then Break st1
            else if (dc > 0 \<and> dc \<ge> ndc) \<or> width_of_data st l
                    \<or> (line_label l - 1 \<notin> set (probation st)
                        \<and> env_predict_line_label env d n = ''DATA'')
            then Continue (accept st2 l)
            else if line_label l - 1 \<notin> set (probation st)
                    \<and> line_label l - 1 \<notin> set (env_blank_lines env) \<and> dc < ndc
            then Continue (st2\<lparr>probation := probation st @ [line_label l]\<rparr>)
            else Break st2)"
proof -
  let ?st1 = "st\<lparr>line_counter := line_counter st + 1\<rparr>"
  let ?st2 = "st\<lparr>line_counter := line_counter st + 1,
                  collected := collected st @ [line_label l]\<rparr>"
  have w: "width_of_data ?st2 l = width_of_data st l"
    by (simp add: width_of_data_def)
  have step: "walk_step env st l =
     (if line_counter st < 3 \<or> line_label l \<in> set (env_aggregation_rows env)
      then Inr (Continue (accept ?st1 l))
      else if all_null l then Inr (Continue ?st1)
      else if join_comma (row_values l) \<in> set (env_headers_discovered env) then Inr (Break ?st1)
      else decide env ?st2 l dc ndc)"
    using assms(1-5)
    by (auto simp add: walk_step_def Let_def bind_err_def)
  show ?thesis
    unfolding step decide_spec [OF assms(6,7)] w
    by (simp add: Let_def)
qed

theorem walk_step_acceptance_witness:
  "line_cells (ex_row 4) \<noteq> [] \<and> line_label (ex_row 4) \<notin> set (env_blank_lines ex_env)
   \<and> line_label (ex_row 4) \<notin> set (env_sub_headers ex_env) \<and> \<not> label_only_row (ex_row 4)
   \<and> row_confidences ex_env ((ex_state 3)\<lparr>line_counter := 4\<rparr>) (ex_row 4) = Inr (0, 0)
   \<and> \<not> width_of_data (ex_state 3) (ex_row 4)
   \<and> walk_step ex_env (ex_state 3) (ex_row 4) =
       Inr (Continue (accept ((ex_state 3)\<lparr>line_counter := 4, collected := [4]\<rparr>) (ex_row 4)))"
proof -
  have 1: "line_cells (ex_row 4) \<noteq> []" by (rule ex_row_facts)
  have 2: "line_label (ex_row 4) \<notin> set (env_blank_lines ex_env)"
    by (simp add: ex_row_def ex_env_def)
  have 3: "line_label (ex_row 4) \<notin> set (env_sub_headers ex_env)"
    by (simp add: ex_row_def ex_env_def)
  have 4: "\<not> (label_only_row (ex_row 4) \<and> footnote_in_label_row (env_footnote_keywords ex_env)
              (ex_row 4) (first_value (ex_row 4)) False)"
    by (simp add: ex_row_facts)
  have 5: "row_confidences ex_env ((ex_state 3)\<lparr>line_counter := line_counter (ex_state 3) + 1\<rparr>)
             (ex_row 4) = Inr (0, 0)"
    by (rule ex_row_confidences)
  have 6: "env_data_confidence ex_env (line_label (ex_row 4)) = Some (9/10)"
    by (simp add: ex_env_def)
  have 7: "env_not_data_confidence ex_env (line_label (ex_row 4)) = Some (1/10)"
    by (simp add: ex_env_def)
  have w: "\<not> width_of_data (ex_state 3) (ex_row 4)"
    by (simp add: width_of_data_def ex_state_def ex_row_facts)
  have e: "line_counter (ex_state 3) = 3" "line_label (ex_row 4) = 4"
    "env_aggregation_rows ex_env = []" "env_headers_discovered ex_env = []"
    "probation (ex_state 3) = []" "collected (ex_state 3) = []"
    "env_predict_line_label ex_env (9/10) (1/10) = ''DATA''"
    by (simp_all add: ex_state_def ex_row_def ex_env_def)
  show ?thesis
    using 1 2 3 w walk_step_acceptance [OF 1 2 3 4 5 6 7] ex_row_confidences [of "(ex_state 3)\<lparr>line_counter := 4\<rparr>" 4]
    by (simp add: ex_row_facts e Let_def)
qed

text \<open>
  C1 as stated fails on the fourth row of a walk whose confidences are both 0: it is not
  blank, not an aggregation row, not a subheader, not a header and not a footnote, and
  \<open>data_conf \<ge> not_data_conf > 0\<close> does not hold, yet the row is accepted, because it is
  as wide as the accepted rows and the row above it was accepted.
\<close>

theorem accepted_with_zero_confidence_counterexample:
  "line_counter (ex_state 2) = 3
   \<and> line_label (ex_row 4) \<notin> set (env_blank_lines ex_env)
   \<and> line_label (ex_row 4) \<notin> set (env_aggregation_rows ex_env)
   \<and> line_label (ex_row 4) \<notin> set (env_sub_headers ex_env)
   \<and> join_comma (row_values (ex_row 4)) \<notin> set (env_headers_discovered ex_env)
   \<and> \<not> label_only_row (ex_row 4)
   \<and> row_confidences ex_env ((ex_state 2)\<lparr>line_counter := 4\<rparr>) (ex_row 4) = Inr (0, 0)
   \<and> walk_step ex_env (ex_state 2) (ex_row 4) =
       Inr (Continue (accept ((ex_state 2)\<lparr>line_counter := 4, collected := [4]\<rparr>) (ex_row 4)))"
proof -
  have e: "line_counter (ex_state 2) = 3" "line_label (ex_row 4) = 4"
    "env_aggregation_rows ex_env = []" "env_headers_discovered ex_env = []"
    "env_blank_lines ex_env = [7]" "env_sub_headers ex_env = []"
    "collected (ex_state 2) = []"
    by (simp_all add: ex_state_def ex_row_def ex_env_def)
  have w: "width_of_data ((ex_state 2)\<lparr>line_counter := 4, collected := [4]\<rparr>) (ex_row 4)"
    by (simp add: width_of_data_def ex_state_def ex_row_facts e)
  have d: "decide ex_env ((ex_state 2)\<lparr>line_counter := 4, collected := [4]\<rparr>) (ex_row 4) 0 0
        = Inr (Continue (accept ((ex_state 2)\<lparr>line_counter := 4, collected := [4]\<rparr>) (ex_row 4)))"
    using w by (simp add: decide_def)
  have "walk_step ex_env (ex_state 2) (ex_row 4) =
       Inr (Continue (accept ((ex_state 2)\<lparr>line_counter := 4, collected := [4]\<rparr>) (ex_row 4)))"
    by (simp add: walk_step_def Let_def ex_row_facts e ex_row_confidences bind_err_def d)
  then show ?thesis
    by (simp add: e ex_row_facts ex_row_confidences)
qed

text \<open>
  A walk from row 5 over rows 5, 6, the blank row 7 and row 8 returns 6, as does the
  walk cut after the blank row; a walk from the blank row 7 returns 7.
\<close>

theorem blank_line_ends_walk_witness:
  "line_label ex_blank_row \<in> set (env_blank_lines ex_env) \<and> (5::int) < line_label ex_blank_row
   \<and> predict_last_data_line_top_down ex_env 5 ([ex_row 5, ex_row 6] @ ex_blank_row # [ex_row 8])
       = predict_last_data_line_top_down ex_env 5 ([ex_row 5, ex_row 6] @ [ex_blank_row])
   \<and> predict_last_data_line_top_down ex_env 5 ([ex_row 5, ex_row 6] @ ex_blank_row # [ex_row 8])
       = Inr (6, 1)
   \<and> line_label ex_blank_row = 7 \<and> line_cells ex_blank_row \<noteq> []
   \<and> predict_last_data_line_top_down ex_env 7 ([] @ ex_blank_row # [ex_row 8]) = Inr (7, 1)"
proof -
  have 1: "line_label ex_blank_row \<in> set (env_blank_lines ex_env)"
    by (simp add: ex_blank_row_def ex_env_def)
  have 2: "sorted_wrt (<) (map line_label ([ex_row 5, ex_row 6] @ ex_blank_row # [ex_row 8]))"
    by (simp add: ex_blank_row_def ex_row_def)
  have 3: "(5::int) < line_label ex_blank_row" by (simp add: ex_blank_row_def)
  have v: "predict_last_data_line_top_down ex_env 5 ([ex_row 5, ex_row 6] @ [ex_blank_row])
             = Inr (6, 1)"
    by (simp add: predict_last_data_line_top_down_def bind_err_def ex_row_step_early
        ex_blank_row_step accept_def ex_row_label)
       (simp add: ex_env_def)
  have 4: "sorted_wrt (<) (map line_label ([] @ ex_blank_row # [ex_row 8]))"
    by (simp add: ex_blank_row_def ex_row_def)
  have 5: "line_label ex_blank_row = 7 \<and> (\<forall>r \<in> set []. (7::int) \<le> line_label r)"
    by (simp add: ex_blank_row_def)
  have 6: "line_cells ex_blank_row \<noteq> []" by (simp add: ex_blank_row_def)
  have c: "env_last_data_line_confidence ex_env 7 = Inr 1" by (simp add: ex_env_def)
  note first = blank_line_ends_walk [OF 1 4, of 7, THEN conjunct2, THEN conjunct2, THEN mp, OF 5]
  have w: "predict_last_data_line_top_down ex_env 7 ([] @ ex_blank_row # [ex_row 8])
             = Inr (7, 1)"
    unfolding first c bind_err_def using 6 by simp
  from blank_line_ends_walk [OF 1 2, of 5] 3 v
  have "predict_last_data_line_top_down ex_env 5 ([ex_row 5, ex_row 6] @ ex_blank_row # [ex_row 8])
       = predict_last_data_line_top_down ex_env 5 ([ex_row 5, ex_row 6] @ [ex_blank_row])"
    by blast
  with 1 3 v w 5 6 show ?thesis by simp
qed

text \<open>
  C10 as stated fails when the predicted first data line is itself blank: the walk stops
  on its first row and returns the first data line, which is the first blank row at or
  after it, not a smaller index.
\<close>

theorem blank_first_data_line_counterexample:
  "line_label ex_blank_row = 7 \<and> 7 \<in> set (env_blank_lines ex_env)
   \<and> predict_last_data_line_top_down ex_env 7 [ex_blank_row, ex_row 8] = Inr (7, 1)"
  by (simp add: predict_last_data_line_top_down_def bind_err_def ex_blank_row_step)
     (simp add: ex_blank_row_def ex_env_def)

section \<open>Properties of the table records\<close>

lemma set_range_list: "set (range_list a b) = {r. a \<le> r \<and> r < b}"
  by (auto simp: range_list_def)

lemma set_rows_above_data:
  "set (rows_above_data t) = {r. top_boundary t \<le> r \<and> r < data_start t \<and> r \<notin> set (header t)}"
  by (auto simp: rows_above_data_def set_range_list)

lemma fold_promote:
  "fold (\<lambda>subheader sc. sc(subheader \<mapsto> Empty_dict)) rs m
     = (\<lambda>r. if r \<in> set rs then Some Empty_dict else m r)"
  by (induction rs arbitrary: m) (auto simp: fun_eq_iff)

text \<open>
  C7 (amended). A newly discovered table is merged into the previous one exactly when
  every row strictly between the previous table's \<^verbatim>\<open>data_end\<close> and the new table's
  \<^verbatim>\<open>data_start\<close> is a blank row or a row of the new table, at or below its top boundary,
  that is not one of its header rows. Merging sets \<^verbatim>\<open>data_end\<close> to the tail's, makes the
  subheader scope the head's updated by the tail's, with every non-header row of the
  tail above its data bound to an empty scope, and makes the aggregation scope the head's
  updated by the tail's; the other fields of the head are kept.
\<close>

theorem merge_spec:
  "(merge_condition blank_lines previous new \<longleftrightarrow>
      (\<forall>r. data_end previous < r \<and> r < data_start new \<longrightarrow>
           r \<in> set blank_lines \<or> (top_boundary new \<le> r \<and> r \<notin> set (header new))))
   \<and> merge_tables previous new =
       previous\<lparr>data_end := data_end new,
                subheader_scope :=
                  (\<lambda>r. if top_boundary new \<le> r \<and> r < data_start new \<and> r \<notin> set (header new)
                       then Some Empty_dict
                       else (subheader_scope previous ++ subheader_scope new) r),
                aggregation_scope := aggregation_scope previous ++ aggregation_scope new\<rparr>"
proof
  show "merge_condition blank_lines previous new \<longleftrightarrow>
      (\<forall>r. data_end previous < r \<and> r < data_start new \<longrightarrow>
           r \<in> set blank_lines \<or> (top_boundary new \<le> r \<and> r \<notin> set (header new)))"
  proof -
    have le: "\<And>r. data_end previous + 1 \<le> r \<longleftrightarrow> data_end previous < r" by arith
    show ?thesis
      unfolding merge_condition_def set_append set_range_list set_rows_above_data le
      by (simp add: subset_iff)
  qed
next
  have "fold (\<lambda>subheader sc. sc(subheader \<mapsto> Empty_dict)) (rows_above_data new)
            (subheader_scope previous ++ subheader_scope new)
      = (\<lambda>r. if top_boundary new \<le> r \<and> r < data_start new \<and> r \<notin> set (header new)
                       then Some Empty_dict
                       else (subheader_scope previous ++ subheader_scope new) r)"
    unfolding fold_promote set_rows_above_data by (auto simp: fun_eq_iff)
  then show "merge_tables previous new =
       previous\<lparr>data_end := data_end new,
                subheader_scope :=
                  (\<lambda>r. if top_boundary new \<le> r \<and> r < data_start new \<and> r \<notin> set (header new)
                       then Some Empty_dict
                       else (subheader_scope previous ++ subheader_scope new) r),
                aggregation_scope := aggregation_scope previous ++ aggregation_scope new\<rparr>"
    by (simp add: merge_tables_def)
qed

theorem merge_spec_witness:
  "merge_condition [4] ex_head ex_tail
   \<and> data_end (merge_tables ex_head ex_tail) = 9
   \<and> subheader_scope (merge_tables ex_head ex_tail) 4 = Some Empty_dict
   \<and> subheader_scope (merge_tables ex_head ex_tail) 7 = Some (Rows [8, 9])"
proof -
  have "\<forall>r. data_end ex_head < r \<and> r < data_start ex_tail \<longrightarrow>
           r \<in> set [4] \<or> (top_boundary ex_tail \<le> r \<and> r \<notin> set (header ex_tail))"
    by (auto simp: ex_head_def ex_tail_def)
  with merge_spec [of "[4]" ex_head ex_tail] show ?thesis
    by (simp add: ex_head_def ex_tail_def)
qed

text \<open>
  C7 as stated fails on a gap row that is neither blank nor a subheader of the previous
  table: row 4 lies strictly between the two tables, no row is blank and the previous
  table has no subheader, yet the test holds and the tables are merged.
\<close>

theorem merge_gap_row_counterexample:
  "data_end ex_head < 4 \<and> 4 < data_start ex_tail
   \<and> 4 \<notin> set [] \<union> dom (subheader_scope ex_head)
   \<and> merge_condition [] ex_head ex_tail"
  by (simp add: merge_condition_def set_range_list set_rows_above_data ex_head_def ex_tail_def)

lemma dom_scopes_of: "dom (scopes_of P last_index) = set P"
proof (induction P last_index rule: scopes_of.induct)
  case (1 last_index)
  show ?case by simp
next
  case (2 s last_index)
  show ?case by (simp add: dom_def)
next
  case (3 s t rest last_index)
  have "dom (scopes_of (s # t # rest) last_index)
      = insert s (dom (scopes_of (t # rest) last_index))"
    by simp
  also have "\<dots> = insert s (set (t # rest))" by (simp only: 3)
  also have "\<dots> = set (s # t # rest)" by simp
  finally show ?case .
qed

lemma assign_scopes_sorted:
  assumes "sorted_wrt (<) P" and "dom sc \<inter> set P = {}"
  shows "assign_scopes P sc last_index = sc ++ scopes_of P last_index"
  using assms
proof (induction P last_index arbitrary: sc rule: scopes_of.induct)
  case (1 last_index)
  then show ?case by simp
next
  case (2 s last_index)
  then have "s \<notin> dom sc" by auto
  then show ?case by (simp add: map_add_def fun_eq_iff)
next
  case (3 s t rest last_index)
  let ?v = "Rows (range_list (s + 1) t)"
  from "3.prems" have s: "s \<notin> dom sc" and t: "t \<notin> dom sc" by auto
  from "3.prems" have srt: "sorted_wrt (<) (t # rest)" and snot: "s \<notin> set (t # rest)"
    by auto
  from "3.prems" snot have dis: "dom (sc(s \<mapsto> ?v)) \<inter> set (t # rest) = {}"
    by auto
  have none: "scopes_of (t # rest) last_index s = None"
    using snot dom_scopes_of [of "t # rest" last_index] by blast
  have unf: "scopes_of (s # t # rest) last_index = (scopes_of (t # rest) last_index)(s \<mapsto> ?v)"
    by simp
  have "assign_scopes (s # t # rest) sc last_index
      = assign_scopes (t # rest) (sc(s \<mapsto> ?v)) last_index"
    using s t by simp
  also have "\<dots> = sc(s \<mapsto> ?v) ++ scopes_of (t # rest) last_index"
    by (rule "3.IH" [OF srt dis])
  also have "\<dots> = sc ++ scopes_of (s # t # rest) last_index"
  proof (rule ext)
    fix a
    show "(sc(s \<mapsto> ?v) ++ scopes_of (t # rest) last_index) a
        = (sc ++ scopes_of (s # t # rest) last_index) a"
      unfolding unf using none
      by (cases "a = s") (simp_all add: map_add_def split: option.splits)
  qed
  finally show ?case .
qed

lemma scopes_of_rows:
  assumes "sorted_wrt (<) P" and "\<forall>p \<in> set P. p \<le> last_index"
    and "scopes_of P last_index s = Some sc"
  shows "\<exists>rows. sc = Rows rows
           \<and> set rows = {r. s < r \<and> r \<le> last_index \<and> (\<forall>t \<in> set P. s < t \<longrightarrow> r < t)}"
  using assms
proof (induction P last_index arbitrary: sc rule: scopes_of.induct)
  case (1 last_index)
  then show ?case by simp
next
  case (2 s0 last_index)
  then have "s = s0" and "sc = Rows (range_list (s0 + 1) (last_index + 1))"
    by (auto split: if_splits)
  then show ?case by (auto simp: set_range_list)
next
  case (3 s0 t0 rest last_index)
  show ?case
  proof (cases "s = s0")
    case True
    with "3.prems" have sc: "sc = Rows (range_list (s0 + 1) t0)" by simp
    from "3.prems" have lt: "s0 < t0" "t0 \<le> last_index" "\<forall>u \<in> set rest. t0 < u" by auto
    have "set (range_list (s0 + 1) t0)
        = {r. s0 < r \<and> r \<le> last_index \<and> (\<forall>t \<in> set (s0 # t0 # rest). s0 < t \<longrightarrow> r < t)}"
      using lt by (auto simp: set_range_list)
    with sc True show ?thesis by simp
  next
    case False
    with "3.prems" have in_rest: "scopes_of (t0 # rest) last_index s = Some sc" by simp
    from "3.prems" have srt: "sorted_wrt (<) (t0 # rest)"
      and le: "\<forall>p \<in> set (t0 # rest). p \<le> last_index" by auto
    from "3.IH" [OF srt le in_rest] obtain rows where rows: "sc = Rows rows"
      "set rows = {r. s < r \<and> r \<le> last_index \<and> (\<forall>t \<in> set (t0 # rest). s < t \<longrightarrow> r < t)}"
      by blast
    from in_rest have "s \<in> set (t0 # rest)"
      using dom_scopes_of [of "t0 # rest" last_index] by blast
    with "3.prems"(1) have "s0 < s" by auto
    with rows show ?thesis by auto
  qed
qed


lemma scopes_of_member:
  assumes "sorted_wrt (<) P" and "\<forall>p \<in> set P. p \<le> last_index" and "s \<in> set P"
  shows "\<exists>rows. scopes_of P last_index s = Some (Rows rows)
           \<and> set rows = {r. s < r \<and> r \<le> last_index \<and> (\<forall>t \<in> set P. s < t \<longrightarrow> r < t)}"
proof -
  from assms(3) have "s \<in> dom (scopes_of P last_index)" by (simp only: dom_scopes_of)
  then obtain sc where sc: "scopes_of P last_index s = Some sc" by blast
  from scopes_of_rows [OF assms(1,2) sc] sc show ?thesis by blast
qed

lemma assign_scopes_partition:
  assumes "sorted_wrt (<) P" and "set P \<subseteq> {lo..last_index}"
    and "sc = assign_scopes P Map.empty last_index"
  shows "dom sc = set P
       \<and> (\<forall>s v. sc s = Some v \<longrightarrow>
             (\<exists>rows. v = Rows rows \<and> set rows \<subseteq> {lo..last_index} - set P))
       \<and> (\<forall>r \<in> {lo..last_index} - set P.
             (\<exists>s \<in> set P. s < r) \<longrightarrow>
             (\<exists>!s. \<exists>rows. sc s = Some (Rows rows) \<and> r \<in> set rows))"
proof -
  let ?last = "last_index"
  have eq: "sc = scopes_of P ?last"
    unfolding assms(3) by (subst assign_scopes_sorted [OF assms(1)]) simp_all
  have le: "\<forall>p \<in> set P. p \<le> ?last" using assms(2) by auto
  have ge: "\<forall>p \<in> set P. lo \<le> p" using assms(2) by auto
  have d: "dom sc = set P" unfolding eq by (rule dom_scopes_of)
  have rows_ok: "\<exists>rows. v = Rows rows \<and> set rows \<subseteq> {lo..?last} - set P"
    if "scopes_of P ?last s = Some v" for s v
  proof -
    from scopes_of_rows [OF assms(1) le that] obtain rows where rows: "v = Rows rows"
      "set rows = {r. s < r \<and> r \<le> ?last \<and> (\<forall>u \<in> set P. s < u \<longrightarrow> r < u)}" by blast
    from that have "s \<in> set P" using dom_scopes_of [of P ?last] by blast
    with ge have "lo \<le> s" by blast
    with rows(2) have "set rows \<subseteq> {lo..?last} - set P" by auto
    with rows(1) show ?thesis by blast
  qed
  have uniq: "\<exists>!s. \<exists>rows. scopes_of P ?last s = Some (Rows rows) \<and> r \<in> set rows"
    if r: "r \<le> ?last" "r \<notin> set P" and s0: "s0 \<in> set P" "s0 < r" for r s0
  proof -
    define S where "S = {p \<in> set P. p < r}"
    have fin: "finite S" and ne: "S \<noteq> {}" using s0 by (auto simp: S_def)
    define m where "m = Max S"
    have mS: "m \<in> S" unfolding m_def using fin ne by (rule Max_in)
    then have mP: "m \<in> set P" and mr: "m < r" by (auto simp: S_def)
    have above: "r < u" if "u \<in> set P" "m < u" for u
    proof (rule ccontr)
      assume "\<not> r < u"
      with that(1) r(2) have "u < r" by (cases "u = r") auto
      with that(1) have "u \<in> S" by (simp add: S_def)
      then have "u \<le> m" unfolding m_def using fin by (rule Max_ge [rotated])
      with that(2) show False by simp
    qed
    from scopes_of_member [OF assms(1) le mP] obtain rows where rows:
      "scopes_of P ?last m = Some (Rows rows)"
      "set rows = {x. m < x \<and> x \<le> ?last \<and> (\<forall>u \<in> set P. m < u \<longrightarrow> x < u)}" by blast
    have "r \<in> set rows" using rows(2) mr r(1) above by auto
    with rows(1) have ex: "\<exists>rows. scopes_of P ?last m = Some (Rows rows) \<and> r \<in> set rows"
      by blast
    have only: "s = m" if "\<exists>rows. scopes_of P ?last s = Some (Rows rows) \<and> r \<in> set rows" for s
    proof -
      from that obtain rows' where r': "scopes_of P ?last s = Some (Rows rows')" "r \<in> set rows'"
        by blast
      from r'(1) have sP: "s \<in> set P" using dom_scopes_of [of P ?last] by blast
      from scopes_of_member [OF assms(1) le sP] r'(1)
      have "set rows' = {x. s < x \<and> x \<le> ?last \<and> (\<forall>u \<in> set P. s < u \<longrightarrow> x < u)}" by auto
      with r'(2) have sr: "s < r" and gap: "\<forall>u \<in> set P. s < u \<longrightarrow> r < u" by auto
      from sP sr have "s \<in> S" by (simp add: S_def)
      then have "s \<le> m" unfolding m_def using fin by (rule Max_ge [rotated])
      moreover have "\<not> s < m" using gap mP mr by auto
      ultimately show ?thesis by simp
    qed
    from ex only show ?thesis by blast
  qed
  show ?thesis
    unfolding d unfolding eq using rows_ok uniq
    by (intro conjI) (simp, blast, force)
qed

text \<open>
  The order of the list matters to the assignment loop: on the list 7, 5 the subheader 7
  gets the empty range from 8 up to 5, and the subheader 5 a range that holds the key 7.
\<close>

lemma assign_scopes_decreasing_example:
  "assign_scopes [7, 5] Map.empty 9 = [7 \<mapsto> Rows [], 5 \<mapsto> Rows [6, 7, 8, 9]]"
proof -
  have 1: "range_list 8 5 = []" unfolding range_list_def by simp
  have 2: "range_list 6 10 = [6, 7, 8, 9]" unfolding range_list_def by (simp add: upto.simps)
  show ?thesis by (simp add: 1 2)
qed

text \<open>
  C9 as stated fails on a merged table: merging the two example tables promotes row 4 to
  a subheader with an empty scope, so rows 5 and 6, which lie between the successive
  subheaders 4 and 7, are in no scope.
\<close>

theorem merged_scope_counterexample:
  "merge_condition [] ex_head ex_tail
   \<and> data_start (merge_tables ex_head ex_tail) = 1
   \<and> data_end (merge_tables ex_head ex_tail) = 9
   \<and> subheader_scope (merge_tables ex_head ex_tail) 4 = Some Empty_dict
   \<and> subheader_scope (merge_tables ex_head ex_tail) 7 = Some (Rows [8, 9])
   \<and> subheader_scope (merge_tables ex_head ex_tail) 5 = None
   \<and> \<not> (\<exists>s rows. subheader_scope (merge_tables ex_head ex_tail) s = Some (Rows rows)
                  \<and> 5 \<in> set rows)"
proof -
  have r: "rows_above_data ex_tail = [4]"
    by (simp add: rows_above_data_def range_list_def ex_tail_def upto.simps)
  have m: "merge_condition [] ex_head ex_tail"
    by (simp add: merge_condition_def set_range_list set_rows_above_data ex_head_def ex_tail_def)
  have s: "subheader_scope (merge_tables ex_head ex_tail) = [7 \<mapsto> Rows [8, 9], 4 \<mapsto> Empty_dict]"
    by (simp add: merge_tables_def r) (simp add: ex_head_def ex_tail_def)
  have "\<not> (\<exists>s rows. subheader_scope (merge_tables ex_head ex_tail) s = Some (Rows rows)
                  \<and> 5 \<in> set rows)"
    unfolding s by (auto split: if_splits)
  with m s show ?thesis
    by (simp add: merge_tables_def ex_head_def ex_tail_def)
qed

section \<open>The ordering of the emitted tables\<close>

lemma predict_ldl_bounds:
  assumes "predict_last_data_line_top_down env fdl ls = Inr (ldl, confidence)"
    and "\<forall>l \<in> set ls. lo \<le> line_label l \<and> line_label l \<le> hi"
    and "lo \<le> fdl" and "fdl \<le> hi"
  shows "lo \<le> ldl \<and> ldl \<le> hi"
proof -
  let ?init = "\<lparr>line_counter = 0, predicted_ldl = fdl, data_index = [],
                  certain_data_widths = [], probation = [], collected = []\<rparr>"
  from assms(1) obtain st' where w: "walk env ?init ls = Inr st'" and l: "ldl = predicted_ldl st'"
    by (cases "walk env ?init ls")
       (auto simp: predict_last_data_line_top_down_def bind_err_def split: sum.splits)
  from walk_ldl [OF w] show ?thesis
  proof
    assume "predicted_ldl st' = predicted_ldl ?init"
    with l assms(3,4) show ?thesis by simp
  next
    assume "predicted_ldl st' \<in> line_label `
              set (takeWhile (\<lambda>l. line_label l \<notin> set (env_blank_lines env)) ls)"
    then obtain x where "x \<in> set ls" and "predicted_ldl st' = line_label x"
      by (auto dest: set_takeWhileD)
    with l assms(2) show ?thesis by auto
  qed
qed

lemma discover_next_table_Some:
  assumes "discover_next_table frame off blank_lines seen pr = Inr (Some t, seen')"
  shows "0 \<le> pat_first_data_line pr
    \<and> top_boundary t = off
    \<and> header t = predicted_pat_header_indexes pr
    \<and> data_start t = data_section_start pr
    \<and> (\<exists>confidence.
          predict_last_data_line_top_down
            ((walk_inputs pr)\<lparr>env_blank_lines := blank_lines,
                              env_headers_discovered := map snd seen'\<rparr>)
            (pat_first_data_line pr)
            (filter (\<lambda>l. pat_first_data_line pr \<le> line_label l)
               (filter (\<lambda>l. off \<le> line_label l) frame)) = Inr (data_end t, confidence))
    \<and> bottom_boundary t = int (length (filter (\<lambda>l. off \<le> line_label l) frame)) - 1
    \<and> predict_subheaders (filter (\<lambda>l. off \<le> line_label l) frame)
         (filter (\<lambda>l. data_section_start pr \<le> line_label l \<and> line_label l \<le> data_end t)
            (filter (\<lambda>l. off \<le> line_label l) frame))
         (candidates_in_data pr (data_end t)) blank_lines (predicted_pat_header_indexes pr)
         (first_column_data_values pr (data_end t)) (scoped_sub_headers pr (data_end t))
         (scoped_candidates pr (data_end t)) (scope_before pr (data_end t))
         (scored_as_data pr (data_end t))
       = Inr (subheader_scope t)"
  using assms
  unfolding discover_next_table_def Let_def bind_err_def
  by (auto split: if_splits sum.splits prod.splits)

lemma discovered_ordered_above:
  assumes disc: "discover_next_table frame off blank_lines seen pr = Inr (Some t, seen')"
    and wp: "well_predicted n off pr"
    and labels: "\<forall>l \<in> set frame. line_label l < n"
  shows "ordered_above t \<and> top_boundary t = off \<and> data_end t < n"
proof -
  let ?fdl = "pat_first_data_line pr"
  let ?hs = "predicted_pat_header_indexes pr"
  let ?cs = "candidate_pat_sub_headers pr"
  note f = discover_next_table_Some [OF disc]
  from f have fdl0: "0 \<le> ?fdl" and top: "top_boundary t = off" and hdr: "header t = ?hs" by auto
  from wp fdl0 have off: "off \<le> ?fdl" and lt: "?fdl < n" and srt: "sorted ?hs"
    and hs: "\<forall>h \<in> set ?hs. off \<le> h \<and> h < ?fdl"
    and cs: "\<forall>c \<in> set ?cs. off \<le> c \<and> (\<forall>h \<in> set ?hs. h < c)"
    by (auto simp: well_predicted_def)
  from f have ds: "data_start t = (if ?cs \<noteq> [] then min (Min (set ?cs)) ?fdl else ?fdl)"
    by (auto simp: data_section_start_def)
  have ds_le: "data_start t \<le> ?fdl" using ds by auto
  have ds_ge: "off \<le> data_start t"
  proof (cases "?cs = []")
    case True
    with ds off show ?thesis by simp
  next
    case False
    then have "Min (set ?cs) \<in> set ?cs" by (intro Min_in) auto
    with cs have "off \<le> Min (set ?cs)" by blast
    with ds off False show ?thesis by simp
  qed
  have above: "h < data_start t" if "h \<in> set ?hs" for h
  proof (cases "?cs = []")
    case True
    with ds hs that show ?thesis by simp
  next
    case False
    then have "Min (set ?cs) \<in> set ?cs" by (intro Min_in) auto
    with cs that have "h < Min (set ?cs)" by blast
    with ds hs that False show ?thesis by simp
  qed
  from f obtain confidence where w: "predict_last_data_line_top_down
         ((walk_inputs pr)\<lparr>env_blank_lines := blank_lines,
                           env_headers_discovered := map snd seen'\<rparr>) ?fdl
         (filter (\<lambda>l. ?fdl \<le> line_label l) (filter (\<lambda>l. off \<le> line_label l) frame))
       = Inr (data_end t, confidence)" by blast
  have "\<forall>l \<in> set (filter (\<lambda>l. ?fdl \<le> line_label l) (filter (\<lambda>l. off \<le> line_label l) frame)).
          ?fdl \<le> line_label l \<and> line_label l \<le> n - 1"
    using labels by auto
  from predict_ldl_bounds [OF w this] lt have de: "?fdl \<le> data_end t" "data_end t \<le> n - 1"
    by auto
  have hd_part: "top_boundary t \<le> hd (header t) \<and> hd (header t) \<le> last (header t)
            \<and> last (header t) < data_start t" if ne: "header t \<noteq> []"
  proof -
    from ne hdr have ne': "?hs \<noteq> []" by simp
    then have "hd ?hs \<in> set ?hs" "last ?hs \<in> set ?hs" by auto
    moreover from srt ne' have "hd ?hs \<le> last ?hs"
      by (cases ?hs) (auto simp: last_in_set)
    ultimately show ?thesis using hs above top hdr by auto
  qed
  show ?thesis
    unfolding ordered_above_def using hd_part ds_ge ds_le de top by auto
qed

lemma ordering_invariant_above: "ordering_invariant t \<Longrightarrow> ordered_above t"
  by (auto simp: ordering_invariant_def ordered_above_def split: if_splits)

lemma fix_current_fields:
  "top_boundary (fix_current n t) = top_boundary t"
  "data_start (fix_current n t) = data_start t"
  "data_end (fix_current n t) = data_end t"
  "header (fix_current n t) = header t"
  by (simp_all add: fix_current_def Let_def)

lemma fix_current_bottom: "data_end t \<le> bottom_boundary (fix_current n t)"
proof (cases "data_end t < n - 1")
  case True
  then have ne: "range_list (data_end t + 1) n \<noteq> []"
    by (simp add: range_list_def)
  then have "last (range_list (data_end t + 1) n) \<in> set (range_list (data_end t + 1) n)"
    by (rule last_in_set)
  then have "data_end t \<le> last (range_list (data_end t + 1) n)"
    by (simp add: set_range_list)
  with True ne show ?thesis by (simp add: fix_current_def Let_def)
next
  case False
  then show ?thesis by (simp add: fix_current_def Let_def)
qed

lemma fix_current_ordered:
  assumes "ordered_above t"
  shows "ordering_invariant (fix_current n t)"
  using assms fix_current_bottom [of t n]
  unfolding ordering_invariant_def ordered_above_def fix_current_fields
  by (auto split: if_splits)

lemma merge_tables_fields:
  "top_boundary (merge_tables c new) = top_boundary c"
  "data_start (merge_tables c new) = data_start c"
  "data_end (merge_tables c new) = data_end new"
  "header (merge_tables c new) = header c"
  by (simp_all add: merge_tables_def)

lemma merge_ordered:
  assumes "ordered_above c" and "ordered_above new" and "data_end c < top_boundary new"
  shows "ordered_above (merge_tables c new)"
  using assms unfolding ordered_above_def merge_tables_fields
  by (auto split: if_splits)

lemma fix_previous_cases:
  assumes "fix_previous tables counter cur k = Some t"
  shows "(k \<noteq> counter - 1 \<and> tables k = Some t)
       \<or> (k = counter - 1 \<and> (\<exists>p. tables k = Some p \<and> top_boundary t = top_boundary p
            \<and> data_start t = data_start p \<and> data_end t = data_end p \<and> header t = header p
            \<and> bottom_boundary t = top_boundary cur - 1
            \<and> subheader_scope t = subheader_scope p))"
proof (cases "tables (counter - 1)")
  case None
  with assms show ?thesis by (auto simp: fix_previous_def)
next
  case (Some p)
  with assms show ?thesis
    by (cases "k = counter - 1") (auto simp: fix_previous_def)
qed

lemma fix_previous_ordered:
  assumes all: "\<forall>k t. tables k = Some t \<longrightarrow> ordering_invariant t"
    and prev: "\<forall>p. tables (counter - 1) = Some p \<longrightarrow> data_end p < top_boundary cur"
    and fp: "fix_previous tables counter cur k = Some t"
  shows "ordering_invariant t"
proof -
  from fix_previous_cases [OF fp] show ?thesis
  proof
    assume "k \<noteq> counter - 1 \<and> tables k = Some t"
    with all show ?thesis by blast
  next
    assume "k = counter - 1 \<and> (\<exists>p. tables k = Some p \<and> top_boundary t = top_boundary p
            \<and> data_start t = data_start p \<and> data_end t = data_end p \<and> header t = header p
            \<and> bottom_boundary t = top_boundary cur - 1
            \<and> subheader_scope t = subheader_scope p)"
    then obtain p where k: "k = counter - 1" and p: "tables k = Some p"
      and eqs: "top_boundary t = top_boundary p" "data_start t = data_start p"
        "data_end t = data_end p" "header t = header p"
        "bottom_boundary t = top_boundary cur - 1" by blast
    from all p have "ordering_invariant p" by blast
    moreover from prev p k have "data_end p < top_boundary cur" by blast
    ultimately show ?thesis
      unfolding ordering_invariant_def eqs by (auto split: if_splits)
  qed
qed

lemma extract_body_cases:
  assumes "extract_body frame blank_lines predict st c = Inr (st', nxt)"
  obtains
    (stop) seen where
      "st' = \<lparr>discovered_tables = (discovered_tables st)(table_counter st \<mapsto> c),
              table_counter = table_counter st + 1, headers_discovered = seen\<rparr>"
      "nxt = None"
  | (merge) new seen1 seen where
      "discover_next_table frame (data_end c + 1) blank_lines seen1
         (predict (data_end c + 1) (table_counter st + 1)) = Inr (Some new, seen)"
      "merge_condition blank_lines c new"
      "st' = \<lparr>discovered_tables =
                 fix_previous ((discovered_tables st)(table_counter st \<mapsto> c)) (table_counter st)
                   (merge_tables c new),
              table_counter = table_counter st, headers_discovered = seen\<rparr>"
      "nxt = Some (fix_current (int (length frame)) (merge_tables c new))"
  | (fresh) new seen1 seen where
      "discover_next_table frame (data_end c + 1) blank_lines seen1
         (predict (data_end c + 1) (table_counter st + 1)) = Inr (Some new, seen)"
      "\<not> merge_condition blank_lines c new"
      "st' = \<lparr>discovered_tables =
                 fix_previous ((discovered_tables st)(table_counter st \<mapsto> c))
                   (table_counter st + 1) new,
              table_counter = table_counter st + 1, headers_discovered = seen\<rparr>"
      "nxt = Some (fix_current (int (length frame)) new)"
proof -
  from assms obtain seen1 where
    s1: "discover_headers frame (header c) (headers_discovered st) = Inr seen1"
    by (cases "discover_headers frame (header c) (headers_discovered st)")
       (auto simp: extract_body_def Let_def bind_err_def)
  from assms s1 obtain found seen where
    d: "discover_next_table frame (data_end c + 1) blank_lines seen1
         (predict (data_end c + 1) (table_counter st + 1)) = Inr (found, seen)"
    by (cases "discover_next_table frame (data_end c + 1) blank_lines seen1
         (predict (data_end c + 1) (table_counter st + 1))")
       (auto simp: extract_body_def Let_def bind_err_def)
  show thesis
  proof (cases found)
    case None
    with assms s1 d have
      "st' = \<lparr>discovered_tables = (discovered_tables st)(table_counter st \<mapsto> c),
              table_counter = table_counter st + 1, headers_discovered = seen\<rparr>" "nxt = None"
      by (auto simp: extract_body_def Let_def bind_err_def)
    then show ?thesis by (rule stop)
  next
    case (Some new)
    show ?thesis
    proof (cases "merge_condition blank_lines c new")
      case True
      with assms s1 d Some have
        "st' = \<lparr>discovered_tables =
                 fix_previous ((discovered_tables st)(table_counter st \<mapsto> c)) (table_counter st)
                   (merge_tables c new),
              table_counter = table_counter st, headers_discovered = seen\<rparr>"
        "nxt = Some (fix_current (int (length frame)) (merge_tables c new))"
        by (auto simp: extract_body_def Let_def bind_err_def)
      with d Some True show ?thesis by (intro merge) auto
    next
      case False
      with assms s1 d Some have
        "st' = \<lparr>discovered_tables =
                 fix_previous ((discovered_tables st)(table_counter st \<mapsto> c))
                   (table_counter st + 1) new,
              table_counter = table_counter st + 1, headers_discovered = seen\<rparr>"
        "nxt = Some (fix_current (int (length frame)) new)"
        by (auto simp: extract_body_def Let_def bind_err_def)
      with d Some False show ?thesis by (intro fresh) auto
    qed
  qed
qed


lemma extract_body_inv:
  assumes inv: "extract_inv st (Some c)"
    and body: "extract_body frame blank_lines predict st c = Inr (st', nxt)"
    and wp: "\<forall>off k. well_predicted (int (length frame)) off (predict off k)"
    and labels: "\<forall>l \<in> set frame. line_label l < int (length frame)"
  shows "extract_inv st' nxt"
proof -
  let ?n = "int (length frame)"
  let ?tc = "table_counter st"
  let ?tables = "(discovered_tables st)(?tc \<mapsto> c)"
  from inv have tc: "?tc \<ge> 1"
    and stored: "\<forall>k t. discovered_tables st k = Some t \<longrightarrow> ordering_invariant t"
    and c_ord: "ordering_invariant c"
    and before: "\<forall>p. discovered_tables st (?tc - 1) = Some p \<longrightarrow> data_end p < top_boundary c"
    by (auto simp: extract_inv_def)
  have tables_ord: "\<forall>k t. ?tables k = Some t \<longrightarrow> ordering_invariant t"
    using stored c_ord by auto
  from body show ?thesis
  proof (cases rule: extract_body_cases)
    case (stop seen)
    with tables_ord show ?thesis by (auto simp: extract_inv_def)
  next
    case (merge new seen1 seen)
    from discovered_ordered_above [OF merge(1) wp [rule_format] labels]
    have new_ord: "ordered_above new" and new_top: "top_boundary new = data_end c + 1" by auto
    have m_ord: "ordered_above (merge_tables c new)"
      by (rule merge_ordered [OF ordering_invariant_above [OF c_ord] new_ord]) (simp add: new_top)
    have prev: "\<forall>p. ?tables (?tc - 1) = Some p \<longrightarrow> data_end p < top_boundary (merge_tables c new)"
      using tc before by (auto simp: merge_tables_fields)
    have st_ord: "\<forall>k t. fix_previous ?tables ?tc (merge_tables c new) k = Some t
                    \<longrightarrow> ordering_invariant t"
      using fix_previous_ordered [OF tables_ord prev] by blast
    have cur_ord: "ordering_invariant (fix_current ?n (merge_tables c new))"
      by (rule fix_current_ordered [OF m_ord])
    have rel: "\<forall>p. fix_previous ?tables ?tc (merge_tables c new) (?tc - 1) = Some p
                 \<longrightarrow> data_end p < top_boundary (fix_current ?n (merge_tables c new))"
    proof (intro allI impI)
      fix p assume p: "fix_previous ?tables ?tc (merge_tables c new) (?tc - 1) = Some p"
      from fix_previous_cases [OF p] obtain p0 where "?tables (?tc - 1) = Some p0"
        "data_end p = data_end p0" by auto
      with prev show "data_end p < top_boundary (fix_current ?n (merge_tables c new))"
        by (simp add: fix_current_fields)
    qed
    from merge(3,4) tc st_ord cur_ord rel show ?thesis
      by (simp add: extract_inv_def)
  next
    case (fresh new seen1 seen)
    from discovered_ordered_above [OF fresh(1) wp [rule_format] labels]
    have new_ord: "ordered_above new" and new_top: "top_boundary new = data_end c + 1" by auto
    have prev: "\<forall>p. ?tables (?tc + 1 - 1) = Some p \<longrightarrow> data_end p < top_boundary new"
      by (simp add: new_top)
    have st_ord: "\<forall>k t. fix_previous ?tables (?tc + 1) new k = Some t \<longrightarrow> ordering_invariant t"
      using fix_previous_ordered [OF tables_ord prev] by blast
    have cur_ord: "ordering_invariant (fix_current ?n new)"
      by (rule fix_current_ordered [OF new_ord])
    have rel: "\<forall>p. fix_previous ?tables (?tc + 1) new (?tc + 1 - 1) = Some p
                 \<longrightarrow> data_end p < top_boundary (fix_current ?n new)"
    proof (intro allI impI)
      fix p assume p: "fix_previous ?tables (?tc + 1) new (?tc + 1 - 1) = Some p"
      from fix_previous_cases [OF p] obtain p0 where "?tables (?tc + 1 - 1) = Some p0"
        "data_end p = data_end p0" by auto
      with prev show "data_end p < top_boundary (fix_current ?n new)"
        by (simp add: fix_current_fields)
    qed
    from fresh(3,4) st_ord cur_ord rel show ?thesis
      by (simp add: extract_inv_def)
  qed
qed




lemma first_table_ordered:
  assumes disc: "discover_next_table frame 0 blank_lines [] pr = Inr (Some c, seen)"
    and wp: "well_predicted (int (length frame)) 0 pr"
    and labels: "\<forall>l \<in> set frame. 0 \<le> line_label l \<and> line_label l < int (length frame)"
  shows "ordering_invariant c"
proof -
  from labels have lt: "\<forall>l \<in> set frame. line_label l < int (length frame)" by blast
  from discovered_ordered_above [OF disc wp lt]
  have above: "ordered_above c" and de: "data_end c < int (length frame)" by auto
  from labels have "filter (\<lambda>l. 0 \<le> line_label l) frame = frame" by (simp add: filter_id_conv)
  with discover_next_table_Some [OF disc] have "bottom_boundary c = int (length frame) - 1"
    by simp
  with above de show ?thesis
    by (auto simp: ordering_invariant_def ordered_above_def split: if_splits)
qed


subsection \<open>A run of \<^verbatim>\<open>extract_tables\<close>\<close>

lemma ex_group_row_facts:
  "line_cells ex_group_row \<noteq> []"
  "line_label ex_group_row = 2"
  "first_value ex_group_row = ''group''"
  "strip (hd (row_values ex_group_row)) = ''Group''"
  "lower ''Group'' = ''group''"
  "join_comma (row_values ex_group_row) = ''Group,nan''"
  by (simp_all add: ex_group_row_def first_value_def row_values_def lower_def lower_char_def
      startswith_def endswith_def Let_def strip_def isspace_def)

lemma ex_walk_env:
  "env_blank_lines ((walk_inputs (ex_predict 0 k))\<lparr>env_blank_lines := [], env_headers_discovered := hs\<rparr>) = []"
  "env_sub_headers ((walk_inputs (ex_predict 0 k))\<lparr>env_blank_lines := [], env_headers_discovered := hs\<rparr>) = [2]"
  "env_aggregation_rows ((walk_inputs (ex_predict 0 k))\<lparr>env_blank_lines := [], env_headers_discovered := hs\<rparr>) = []"
  "env_footnote_keywords ((walk_inputs (ex_predict 0 k))\<lparr>env_blank_lines := [], env_headers_discovered := hs\<rparr>) = [''note'', ''source'']"
  "env_last_data_line_confidence ((walk_inputs (ex_predict 0 k))\<lparr>env_blank_lines := [], env_headers_discovered := hs\<rparr>) ldl = Inr 1"
  "env_last_data_line_confidence (walk_inputs (ex_predict 0 k)) ldl = Inr 1"
  by (simp_all add: ex_predict_def ex_env_def)

lemma ex_row_step_found:
  assumes "line_counter st < 3" and "n \<noteq> 2"
  shows "walk_step ((walk_inputs (ex_predict 0 k))\<lparr>env_blank_lines := [], env_headers_discovered := hs\<rparr>) st (ex_row n)
           = Inr (Continue (accept (st\<lparr>line_counter := line_counter st + 1\<rparr>) (ex_row n)))"
  using assms by (simp add: walk_step_def Let_def ex_row_facts ex_walk_env ex_row_label)

lemma ex_group_row_step:
  "walk_step ((walk_inputs (ex_predict 0 k))\<lparr>env_blank_lines := [], env_headers_discovered := hs\<rparr>) st ex_group_row
           = Inr (Continue (st\<lparr>line_counter := line_counter st + 1\<rparr>))"
  by (simp add: walk_step_def Let_def ex_group_row_facts ex_walk_env footnote_in_subheader_def
      startswith_def)

lemma ex_walk:
  "predict_last_data_line_top_down
     ((walk_inputs (ex_predict 0 k))\<lparr>env_blank_lines := [], env_headers_discovered := hs\<rparr>) 1
     [ex_row 1, ex_group_row, ex_row 3] = Inr (3, 1)"
  by (simp add: predict_last_data_line_top_down_def bind_err_def ex_row_step_found
      ex_group_row_step accept_def ex_row_label ex_walk_env)

lemma ex_candidates: "candidates_in_data (ex_predict 0 k) 3 = [2]"
proof -
  have "set (env_sub_headers (walk_inputs (ex_predict 0 k)))
          \<inter> set (range_list (data_section_start (ex_predict 0 k)) (3 + 1)) = {2}"
    by (auto simp: ex_predict_def ex_env_def data_section_start_def range_list_def)
  then show ?thesis by (simp add: candidates_in_data_def)
qed

lemma ex_promote:
  "promote [] [0] [''x'', ''x''] (\<lambda>r. Inr False) 3 [] ex_group_row = Inr [2]"
  unfolding promote_def Let_def ex_group_row_facts
  by (simp add: ex_group_row_facts bind_err_def)

lemma ex_subheaders:
  "predict_subheaders ex_frame [ex_row 1, ex_group_row, ex_row 3] [2] [] [0] [''x'', ''x'']
     [] [2] Map.empty (\<lambda>r. Inr False) = Inr [2 \<mapsto> Rows [3]]"
proof -
  have r: "row_at ex_frame 2 = Inr ex_group_row"
    by (simp add: row_at_def ex_frame_def ex_row_label ex_group_row_facts)
  have rl: "range_list 3 4 = [3]" by (simp add: range_list_def upto.simps)
  show ?thesis
    unfolding predict_subheaders_def
    by (simp add: r bind_err_def ex_row_label ex_promote rl ex_row_facts ex_group_row_facts
          del: promote_all.simps(2))
       (simp add: ex_promote bind_err_def rl)
qed


lemma ex_discover_headers:
  "discover_headers ex_frame [0] [] = Inr [(0, ''x,1'')]"
  "discover_headers ex_frame [0] [(0, ''x,1'')] = Inr [(0, ''x,1'')]"
  by (simp_all add: ex_frame_def row_at_def ex_row_label bind_err_def ex_row_facts)

lemma ex_first_table:
  "discover_next_table ex_frame 0 [] [] (ex_predict 0 k) = Inr (Some ex_found, [(0, ''x,1'')])"
proof -
  have csv: "filter (\<lambda>l. 0 \<le> line_label l) ex_frame = ex_frame"
    by (simp add: ex_frame_def ex_row_label ex_group_row_facts)
  have rows: "filter (\<lambda>l. 1 \<le> line_label l) ex_frame = [ex_row 1, ex_group_row, ex_row 3]"
    by (simp add: ex_frame_def ex_row_label ex_group_row_facts)
  have p: "pat_first_data_line (ex_predict 0 k) = 1"
    "predicted_pat_header_indexes (ex_predict 0 k) = [0]"
    "data_section_start (ex_predict 0 k) = 1"
    "first_column_data_values (ex_predict 0 k) 3 = [''x'', ''x'']"
    "scoped_sub_headers (ex_predict 0 k) 3 = []"
    "scoped_candidates (ex_predict 0 k) 3 = [2]"
    "scope_before (ex_predict 0 k) 3 = Map.empty"
    "scored_as_data (ex_predict 0 k) 3 = (\<lambda>r. Inr False)"
    "aggregations (ex_predict 0 k) 3 = Map.empty"
    by (simp_all add: ex_predict_def data_section_start_def)
  have cand: "filter (\<lambda>l. 1 \<le> line_label l \<and> line_label l \<le> 3) ex_frame
                = [ex_row 1, ex_group_row, ex_row 3]"
    by (simp add: ex_frame_def ex_row_label ex_group_row_facts)
  have ne: "ex_frame \<noteq> []" "int (length ex_frame) = 4" by (simp_all add: ex_frame_def)
  have m: "map snd [(0::int, ''x,1'')] = [''x,1'']" by simp
  show ?thesis
    unfolding discover_next_table_def csv Let_def p ex_discover_headers bind_err_def rows
      sum.case m ex_walk prod.case cand ex_candidates ex_subheaders
    by (simp add: ne ex_found_def)
qed

lemma ex_no_second_table:
  "discover_next_table ex_frame 4 [] seen (ex_predict 4 k) = Inr (None, seen)"
  by (simp add: discover_next_table_def ex_frame_def ex_row_label ex_group_row_facts)

lemma ex_body:
  "extract_body ex_frame [] ex_predict
     \<lparr>discovered_tables = Map.empty, table_counter = 1, headers_discovered = [(0, ''x,1'')]\<rparr>
     ex_found
   = Inr (\<lparr>discovered_tables = [1 \<mapsto> ex_found], table_counter = 2,
           headers_discovered = [(0, ''x,1'')]\<rparr>, None)"
proof -
  have h: "header ex_found = [0]" "data_end ex_found + 1 = 4" by (simp_all add: ex_found_def)
  show ?thesis
    unfolding extract_body_def Let_def h extract_state.simps ex_discover_headers bind_err_def
      sum.case ex_no_second_table
    by simp
qed

lemma ex_run: "extract_tables 2 ex_frame [] ex_predict = Some (Inr [1 \<mapsto> ex_found])"
proof -
  have f: "final_footnotes 4 []
             \<lparr>discovered_tables = [1 \<mapsto> ex_found], table_counter = 2,
              headers_discovered = [(0, ''x,1'')]\<rparr> = [1 \<mapsto> ex_found]"
    by (simp add: final_footnotes_def range_list_def) (simp add: ex_found_def)
  have n: "int (length ex_frame) = 4" by (simp add: ex_frame_def)
  have loop: "extract_loop (Suc 1) ex_frame [] ex_predict
      \<lparr>discovered_tables = Map.empty, table_counter = 1, headers_discovered = [(0, ''x,1'')]\<rparr>
      (Some ex_found)
    = Some (Inr \<lparr>discovered_tables = [1 \<mapsto> ex_found], table_counter = 2,
              headers_discovered = [(0, ''x,1'')]\<rparr>)"
    unfolding extract_loop.simps ex_body by simp
  have "extract_tables (Suc 1) ex_frame [] ex_predict = Some (Inr [1 \<mapsto> ex_found])"
    unfolding extract_tables_def ex_first_table sum.case prod.case loop n
      option.map map_sum.simps f
    by simp
  then show ?thesis by (simp only: Suc_1)
qed

lemma ex_well_predicted:
  "\<forall>off k. well_predicted (int (length ex_frame)) off (ex_predict off k)"
  by (simp add: well_predicted_def ex_predict_def ex_frame_def)


section \<open>The subheader scopes of the emitted tables\<close>

lemma assign_scopes_dom: "dom (assign_scopes P sc last_index) \<subseteq> dom sc \<union> set P"
proof (induction P arbitrary: sc)
  case Nil
  show ?case by simp
next
  case (Cons s rest)
  have step: "dom (assign_scopes rest sc' last_index) \<subseteq> dom sc \<union> set (s # rest)"
    if "dom sc' \<subseteq> insert s (dom sc)" for sc'
    using Cons.IH [of sc'] that by auto
  show ?case
  proof (cases "s \<in> dom sc")
    case True
    then have "assign_scopes (s # rest) sc last_index = assign_scopes rest sc last_index"
      by simp
    with step [of sc] show ?thesis by auto
  next
    case False
    show ?thesis
    proof (cases "rest = []")
      case True
      with False show ?thesis by auto
    next
      case ne: False
      show ?thesis
      proof (cases "find (\<lambda>next_subh. next_subh \<notin> dom sc) rest")
        case None
        with False ne have
          "assign_scopes (s # rest) sc last_index = assign_scopes rest sc last_index"
          by simp
        with step [of sc] show ?thesis by auto
      next
        case (Some n)
        with False ne have
          "assign_scopes (s # rest) sc last_index
             = assign_scopes rest (sc(s \<mapsto> Rows (range_list (s + 1) n))) last_index"
          by simp
        with step [of "sc(s \<mapsto> Rows (range_list (s + 1) n))"] show ?thesis by auto
      qed
    qed
  qed
qed

lemma promote_cases:
  assumes "promote bl hs fc sd last_index P row = Inr P'"
  shows "P' = P \<or> P' = P @ [line_label row]"
  using assms
  by (auto simp: promote_def Let_def bind_err_def split: if_splits sum.splits)

lemma promote_all_sorted:
  assumes "promote_all bl hs fc sd last_index P rows = Inr P'"
  shows "set P' \<subseteq> set P \<union> line_label ` set rows
       \<and> (sorted_wrt (<) (P @ map line_label rows) \<longrightarrow> sorted_wrt (<) P')"
  using assms
proof (induction rows arbitrary: P)
  case Nil
  then show ?case by simp
next
  case (Cons row rows)
  from Cons.prems obtain P1 where p1: "promote bl hs fc sd last_index P row = Inr P1"
    and rest: "promote_all bl hs fc sd last_index P1 rows = Inr P'"
    by (cases "promote bl hs fc sd last_index P row") (auto simp: bind_err_def)
  from Cons.IH [OF rest] have ih: "set P' \<subseteq> set P1 \<union> line_label ` set rows"
    "sorted_wrt (<) (P1 @ map line_label rows) \<Longrightarrow> sorted_wrt (<) P'" by auto
  from promote_cases [OF p1] show ?case
  proof
    assume e: "P1 = P"
    have "sorted_wrt (<) (P @ map line_label rows)"
      if "sorted_wrt (<) (P @ map line_label (row # rows))"
      using that by (auto simp: sorted_wrt_append)
    with ih e show ?thesis by auto
  next
    assume e: "P1 = P @ [line_label row]"
    with ih show ?thesis by auto
  qed
qed

lemma row_at_label: "row_at f h = Inr l \<Longrightarrow> line_label l = h"
  by (auto simp: row_at_def find_Some_iff split: option.splits)

lemma rows_at_labels:
  "sequence_err (map (row_at f) hs) = Inr rows \<Longrightarrow> map line_label rows = hs"
proof (induction hs arbitrary: rows)
  case Nil
  then show ?case by simp
next
  case (Cons h hs)
  from Cons.prems obtain l ls where l: "row_at f h = Inr l"
    and ls: "sequence_err (map (row_at f) hs) = Inr ls" and r: "rows = l # ls"
    by (auto simp: bind_err_def split: sum.splits)
  from row_at_label [OF l] Cons.IH [OF ls] r show ?case by simp
qed

lemma predict_subheaders_Inr:
  assumes "predict_subheaders csv cand_data cands bl hs fc sub cand sc sd = Inr scopes"
  shows "cand_data \<noteq> []
       \<and> (\<exists>P. scopes = assign_scopes P sc (line_label (last cand_data))
              \<and> set P \<subseteq> set sub \<union> set cand
              \<and> (sorted_wrt (<) (sub @ cand) \<longrightarrow> sorted_wrt (<) P))"
proof -
  from assms have ne: "cand_data \<noteq> []"
    by (auto simp: predict_subheaders_def bind_err_def split: sum.splits if_splits)
  from assms ne obtain rows where rows: "sequence_err (map (row_at csv) cand) = Inr rows"
    by (cases "sequence_err (map (row_at csv) cand)")
       (auto simp: predict_subheaders_def bind_err_def Let_def split: sum.splits if_splits)
  from assms ne rows obtain P where
    P: "promote_all bl hs fc sd (line_label (last cand_data)) sub rows = Inr P"
    and s: "scopes = assign_scopes P sc (line_label (last cand_data))"
    by (cases "promote_all bl hs fc sd (line_label (last cand_data)) sub rows")
       (auto simp: predict_subheaders_def bind_err_def Let_def split: sum.splits if_splits)
  from rows_at_labels [OF rows] have m: "map line_label rows = cand" .
  then have "line_label ` set rows = set cand" by (metis set_map)
  with promote_all_sorted [OF P] m have "set P \<subseteq> set sub \<union> set cand"
    "sorted_wrt (<) (sub @ cand) \<longrightarrow> sorted_wrt (<) P" by auto
  with ne s show ?thesis by blast
qed

lemma candidates_in_data_set:
  "set (candidates_in_data pr ldl) \<subseteq> {data_section_start pr..ldl}"
  by (auto simp: candidates_in_data_def set_range_list)

lemma discovered_scope:
  assumes disc: "discover_next_table frame off blank_lines seen pr = Inr (Some t, seen')"
    and sc: "scoped_among_candidates pr"
  obtains P where
    "filter (\<lambda>l. data_start t \<le> line_label l \<and> line_label l \<le> data_end t)
       (filter (\<lambda>l. off \<le> line_label l) frame) \<noteq> []"
    "subheader_scope t
       = assign_scopes P (scope_before pr (data_end t))
           (line_label (last (filter (\<lambda>l. data_start t \<le> line_label l \<and> line_label l \<le> data_end t)
                                 (filter (\<lambda>l. off \<le> line_label l) frame))))"
    "set P \<subseteq> {data_start t..data_end t}"
    "dom (scope_before pr (data_end t)) \<subseteq> {data_start t..data_end t}"
    "sorted_wrt (<) (scoped_sub_headers pr (data_end t) @ scoped_candidates pr (data_end t))
       \<Longrightarrow> sorted_wrt (<) P"
proof -
  note f = discover_next_table_Some [OF disc]
  from f have ds: "data_start t = data_section_start pr" by blast
  from f have ps: "predict_subheaders (filter (\<lambda>l. off \<le> line_label l) frame)
         (filter (\<lambda>l. data_section_start pr \<le> line_label l \<and> line_label l \<le> data_end t)
            (filter (\<lambda>l. off \<le> line_label l) frame))
         (candidates_in_data pr (data_end t)) blank_lines (predicted_pat_header_indexes pr)
         (first_column_data_values pr (data_end t)) (scoped_sub_headers pr (data_end t))
         (scoped_candidates pr (data_end t)) (scope_before pr (data_end t))
         (scored_as_data pr (data_end t))
       = Inr (subheader_scope t)" by blast
  from sc have among: "set (scoped_sub_headers pr (data_end t)) \<union> set (scoped_candidates pr (data_end t))
              \<union> dom (scope_before pr (data_end t)) \<subseteq> set (candidates_in_data pr (data_end t))"
    by (simp add: scoped_among_candidates_def)
  with candidates_in_data_set [of pr "data_end t"]
  have rng: "set (scoped_sub_headers pr (data_end t)) \<union> set (scoped_candidates pr (data_end t))
              \<union> dom (scope_before pr (data_end t)) \<subseteq> {data_start t..data_end t}"
    unfolding ds by blast
  from predict_subheaders_Inr [OF ps] obtain P where
    ne: "filter (\<lambda>l. data_section_start pr \<le> line_label l \<and> line_label l \<le> data_end t)
            (filter (\<lambda>l. off \<le> line_label l) frame) \<noteq> []"
    and s: "subheader_scope t
       = assign_scopes P (scope_before pr (data_end t))
           (line_label (last (filter (\<lambda>l. data_section_start pr \<le> line_label l \<and> line_label l \<le> data_end t)
                                 (filter (\<lambda>l. off \<le> line_label l) frame))))"
    and P: "set P \<subseteq> set (scoped_sub_headers pr (data_end t)) \<union> set (scoped_candidates pr (data_end t))"
    and srt: "sorted_wrt (<) (scoped_sub_headers pr (data_end t) @ scoped_candidates pr (data_end t))
                \<longrightarrow> sorted_wrt (<) P"
    by auto
  from P rng have P': "set P \<subseteq> {data_start t..data_end t}" by blast
  from rng have b: "dom (scope_before pr (data_end t)) \<subseteq> {data_start t..data_end t}" by blast
  show thesis
    by (rule that [of P]) (use ne s P' b srt in \<open>simp_all add: ds\<close>)
qed

lemma discovered_keys_in_data:
  assumes disc: "discover_next_table frame off blank_lines seen pr = Inr (Some t, seen')"
    and sc: "scoped_among_candidates pr"
  shows "keys_in_data t"
proof -
  from disc sc show ?thesis
  proof (rule discovered_scope)
    fix P
    let ?last = "line_label (last (filter (\<lambda>l. data_start t \<le> line_label l \<and> line_label l \<le> data_end t)
                                 (filter (\<lambda>l. off \<le> line_label l) frame)))"
    assume s: "subheader_scope t = assign_scopes P (scope_before pr (data_end t)) ?last"
      and P: "set P \<subseteq> {data_start t..data_end t}"
      and b: "dom (scope_before pr (data_end t)) \<subseteq> {data_start t..data_end t}"
    from assign_scopes_dom [of P "scope_before pr (data_end t)" ?last] P b
    have "dom (assign_scopes P (scope_before pr (data_end t)) ?last)
            \<subseteq> {data_start t..data_end t}" by blast
    then show ?thesis unfolding keys_in_data_def s .
  qed
qed

lemma dom_fold_promote:
  "dom (fold (\<lambda>subheader sc. sc(subheader \<mapsto> Empty_dict)) rs m) = set rs \<union> dom m"
  unfolding fold_promote by (auto split: if_splits)

lemma merge_keys_in_data:
  assumes "keys_in_data c" and "keys_in_data new" and "ordered_above c" and "ordered_above new"
    and "data_end c < top_boundary new"
  shows "keys_in_data (merge_tables c new)"
proof -
  have d: "dom (subheader_scope (merge_tables c new))
             = set (rows_above_data new) \<union> (dom (subheader_scope c) \<union> dom (subheader_scope new))"
    by (simp add: merge_tables_def dom_fold_promote Un_commute)
  from assms(3,4) have o: "data_start c \<le> data_end c" "top_boundary new \<le> data_start new"
    "data_start new \<le> data_end new" by (auto simp: ordered_above_def)
  show ?thesis
    unfolding keys_in_data_def d merge_tables_fields set_rows_above_data
    using assms(1,2,5) o by (auto simp: keys_in_data_def)
qed

lemma fix_current_keys: "keys_in_data (fix_current n t) = keys_in_data t"
  by (simp add: keys_in_data_def fix_current_def Let_def)

lemma fix_previous_keys:
  assumes "\<forall>k t. tables k = Some t \<longrightarrow> keys_in_data t"
    and "fix_previous tables counter cur k = Some t"
  shows "keys_in_data t"
proof -
  from fix_previous_cases [OF assms(2)] show ?thesis
  proof
    assume "k \<noteq> counter - 1 \<and> tables k = Some t"
    with assms(1) show ?thesis by blast
  next
    assume "k = counter - 1 \<and> (\<exists>p. tables k = Some p \<and> top_boundary t = top_boundary p
            \<and> data_start t = data_start p \<and> data_end t = data_end p \<and> header t = header p
            \<and> bottom_boundary t = top_boundary cur - 1
            \<and> subheader_scope t = subheader_scope p)"
    then obtain p where p: "tables k = Some p" and eqs: "data_start t = data_start p"
      "data_end t = data_end p" "subheader_scope t = subheader_scope p" by blast
    from assms(1) p have "keys_in_data p" by blast
    then show ?thesis unfolding keys_in_data_def eqs .
  qed
qed

lemma extract_body_keys:
  assumes inv: "extract_inv st (Some c)"
    and stored: "\<forall>k t. discovered_tables st k = Some t \<longrightarrow> keys_in_data t"
    and cur: "keys_in_data c"
    and body: "extract_body frame blank_lines predict st c = Inr (st', nxt)"
    and wp: "\<forall>off k. well_predicted (int (length frame)) off (predict off k)"
    and sc: "\<forall>off k. scoped_among_candidates (predict off k)"
    and labels: "\<forall>l \<in> set frame. line_label l < int (length frame)"
  shows "(\<forall>k t. discovered_tables st' k = Some t \<longrightarrow> keys_in_data t)
       \<and> (\<forall>c'. nxt = Some c' \<longrightarrow> keys_in_data c')"
proof -
  let ?n = "int (length frame)"
  let ?tc = "table_counter st"
  let ?tables = "(discovered_tables st)(?tc \<mapsto> c)"
  from inv have c_ord: "ordering_invariant c" by (auto simp: extract_inv_def)
  have tables_keys: "\<forall>k t. ?tables k = Some t \<longrightarrow> keys_in_data t"
    using stored cur by auto
  from body show ?thesis
  proof (cases rule: extract_body_cases)
    case (stop seen)
    with tables_keys show ?thesis by auto
  next
    case (merge new seen1 seen)
    from discovered_ordered_above [OF merge(1) wp [rule_format] labels]
    have new_ord: "ordered_above new" and new_top: "top_boundary new = data_end c + 1" by auto
    have new_keys: "keys_in_data new"
      by (rule discovered_keys_in_data [OF merge(1) sc [rule_format]])
    have m: "keys_in_data (merge_tables c new)"
      by (rule merge_keys_in_data [OF cur new_keys ordering_invariant_above [OF c_ord] new_ord])
         (simp add: new_top)
    have "\<forall>k t. fix_previous ?tables ?tc (merge_tables c new) k = Some t \<longrightarrow> keys_in_data t"
      using fix_previous_keys [OF tables_keys] by blast
    with merge(3,4) m show ?thesis by (simp add: fix_current_keys)
  next
    case (fresh new seen1 seen)
    have new_keys: "keys_in_data new"
      by (rule discovered_keys_in_data [OF fresh(1) sc [rule_format]])
    have "\<forall>k t. fix_previous ?tables (?tc + 1) new k = Some t \<longrightarrow> keys_in_data t"
      using fix_previous_keys [OF tables_keys] by blast
    with fresh(3,4) new_keys show ?thesis by (simp add: fix_current_keys)
  qed
qed

lemma extract_loop_keys:
  assumes "extract_loop fuel frame blank_lines predict st cur = Some (Inr st')"
    and "extract_inv st cur"
    and "\<forall>k t. discovered_tables st k = Some t \<longrightarrow> keys_in_data t"
    and "\<forall>c. cur = Some c \<longrightarrow> keys_in_data c"
    and "\<forall>off k. well_predicted (int (length frame)) off (predict off k)"
    and "\<forall>off k. scoped_among_candidates (predict off k)"
    and "\<forall>l \<in> set frame. line_label l < int (length frame)"
  shows "\<forall>k t. discovered_tables st' k = Some t \<longrightarrow> keys_in_data t"
  using assms
proof (induction fuel frame blank_lines predict st cur rule: extract_loop.induct)
  case (1 fuel frame blank_lines predict st)
  then show ?case by simp
next
  case (2 frame blank_lines predict st t)
  then show ?case by simp
next
  case (3 fuel frame blank_lines predict st t)
  from "3.prems"(1) obtain st1 nxt where
    body: "extract_body frame blank_lines predict st t = Inr (st1, nxt)"
    and rest: "extract_loop fuel frame blank_lines predict st1 nxt = Some (Inr st')"
    by (cases "extract_body frame blank_lines predict st t") (auto split: prod.splits)
  have inv1: "extract_inv st1 nxt"
    by (rule extract_body_inv [OF "3.prems"(2) body "3.prems"(5,7)])
  from "3.prems"(4) have cur: "keys_in_data t" by simp
  from extract_body_keys [OF "3.prems"(2,3) cur body "3.prems"(5,6,7)]
  have k1: "\<forall>k t. discovered_tables st1 k = Some t \<longrightarrow> keys_in_data t"
    and k2: "\<forall>c. nxt = Some c \<longrightarrow> keys_in_data c" by auto
  from "3.IH" [OF body refl rest inv1 k1 k2 "3.prems"(5,6,7)] show ?case .
qed

lemma final_footnotes_keys:
  assumes "\<forall>k t. discovered_tables st k = Some t \<longrightarrow> keys_in_data t"
    and "final_footnotes n blank_lines st k = Some t"
  shows "keys_in_data t"
proof (cases "discovered_tables st (table_counter st - 1)")
  case None
  with assms show ?thesis by (simp add: final_footnotes_def)
next
  case (Some p)
  show ?thesis
  proof (cases "k = table_counter st - 1 \<and> data_end p \<noteq> n")
    case True
    with assms(2) Some have
      "t = p\<lparr>footnotes := filter (\<lambda>r. r \<notin> set blank_lines) (range_list (data_end p + 1) n)\<rparr>"
      by (simp add: final_footnotes_def)
    moreover from assms(1) Some have "keys_in_data p" by blast
    ultimately show ?thesis by (simp add: keys_in_data_def)
  next
    case False
    with assms(2) Some have "discovered_tables st k = Some t"
      by (auto simp: final_footnotes_def split: if_splits)
    with assms(1) show ?thesis by blast
  qed
qed

lemma range_index_labels:
  assumes "map line_label frame = [0..int (length frame) - 1]"
  shows "\<forall>l \<in> set frame. 0 \<le> line_label l \<and> line_label l < int (length frame)"
proof
  fix l assume "l \<in> set frame"
  then have "line_label l \<in> set (map line_label frame)" by simp
  then show "0 \<le> line_label l \<and> line_label l < int (length frame)"
    unfolding assms by simp
qed

lemma emitted_keys_in_data:
  assumes run: "extract_tables fuel frame blank_lines predict = Some (Inr tables)"
    and wp: "\<forall>off k. well_predicted (int (length frame)) off (predict off k)"
    and sc: "\<forall>off k. scoped_among_candidates (predict off k)"
    and labels: "\<forall>l \<in> set frame. 0 \<le> line_label l \<and> line_label l < int (length frame)"
    and t: "tables k = Some t"
  shows "keys_in_data t"
proof -
  let ?n = "int (length frame)"
  from run obtain first seen where
    disc: "discover_next_table frame 0 blank_lines [] (predict 0 1) = Inr (first, seen)"
    by (cases "discover_next_table frame 0 blank_lines [] (predict 0 1)")
       (auto simp: extract_tables_def)
  let ?init = "\<lparr>discovered_tables = Map.empty, table_counter = 1, headers_discovered = seen\<rparr>"
  from run disc obtain st' where
    loop: "extract_loop fuel frame blank_lines predict ?init first = Some (Inr st')"
    and res: "tables = final_footnotes ?n blank_lines st'"
    by (cases "extract_loop fuel frame blank_lines predict ?init first")
       (auto simp: extract_tables_def map_sum_def split: sum.splits)
  from labels have lt: "\<forall>l \<in> set frame. line_label l < ?n" by blast
  have init: "extract_inv ?init first"
  proof (cases first)
    case None
    then show ?thesis by (simp add: extract_inv_def)
  next
    case (Some c)
    with disc have "ordering_invariant c"
      using first_table_ordered [OF _ wp [rule_format] labels] by blast
    with Some show ?thesis by (simp add: extract_inv_def)
  qed
  have k0: "\<forall>k t. discovered_tables ?init k = Some t \<longrightarrow> keys_in_data t" by simp
  have k1: "\<forall>c. first = Some c \<longrightarrow> keys_in_data c"
    using disc discovered_keys_in_data [OF _ sc [rule_format]] by blast
  from extract_loop_keys [OF loop init k0 k1 wp sc lt]
  have "\<forall>k t. discovered_tables st' k = Some t \<longrightarrow> keys_in_data t" .
  from final_footnotes_keys [OF this] t res show ?thesis by blast
qed


lemma sorted_last_greatest:
  assumes "sorted_wrt (\<lambda>x y. f x < (f y :: int)) ys" and "y \<in> set ys"
  shows "f y \<le> f (last ys)"
  using assms
proof (induction ys)
  case Nil
  then show ?case by simp
next
  case (Cons a ys)
  show ?case
  proof (cases "ys = []")
    case True
    with Cons.prems show ?thesis by simp
  next
    case False
    then have l: "last ys \<in> set ys" by simp
    from Cons.prems(1) have a: "\<forall>x \<in> set ys. f a < f x" and srt: "sorted_wrt (\<lambda>x y. f x < f y) ys"
      by auto
    show ?thesis
    proof (cases "y = a")
      case True
      from a l have "f a < f (last ys)" by blast
      with True False show ?thesis by simp
    next
      case ne: False
      with Cons.prems(2) have "y \<in> set ys" by simp
      from Cons.IH [OF srt this] False show ?thesis by simp
    qed
  qed
qed

lemma last_of_slice:
  assumes lab: "map line_label frame = [0..int (length frame) - 1]"
    and "0 \<le> off" and "off \<le> lo" and "lo \<le> hi" and "hi < int (length frame)"
  shows "line_label (last (filter (\<lambda>l. lo \<le> line_label l \<and> line_label l \<le> hi)
                             (filter (\<lambda>l. off \<le> line_label l) frame))) = hi"
proof -
  let ?ys = "filter (\<lambda>l. lo \<le> line_label l \<and> line_label l \<le> hi)
               (filter (\<lambda>l. off \<le> line_label l) frame)"
  have "hi \<in> set (map line_label frame)" unfolding lab using assms(2-5) by simp
  then obtain r where r: "r \<in> set frame" "line_label r = hi" by auto
  with assms(2-5) have rin: "r \<in> set ?ys" by simp
  have ne: "?ys \<noteq> []"
  proof
    assume "?ys = []"
    then have "length ?ys = 0" by (simp only: list.size)
    with length_pos_if_in_set [OF rin] show False by linarith
  qed
  have "sorted_wrt (<) (map line_label frame)" unfolding lab by (simp add: strict_sorted_iff)
  then have "sorted_wrt (\<lambda>x y. line_label x < line_label y) frame"
    by (simp add: sorted_wrt_map)
  then have "sorted_wrt (\<lambda>x y. line_label x < line_label y) ?ys"
    by (intro sorted_wrt_filter)
  from sorted_last_greatest [OF this rin] r have "hi \<le> line_label (last ?ys)" by simp
  moreover from ne have "last ?ys \<in> set ?ys" by (rule last_in_set)
  then have "line_label (last ?ys) \<le> hi" by simp
  ultimately show ?thesis by simp
qed

lemma discovered_partition:
  assumes disc: "discover_next_table frame off blank_lines seen pr = Inr (Some t, seen')"
    and wp: "well_predicted (int (length frame)) off pr"
    and sc: "scoped_among_candidates pr"
    and lab: "map line_label frame = [0..int (length frame) - 1]"
    and off: "0 \<le> off"
    and ns: "nothing_scoped pr (data_end t)"
  shows "(\<forall>s v. subheader_scope t s = Some v \<longrightarrow>
             (\<exists>rows. v = Rows rows
                \<and> set rows \<subseteq> {data_start t..data_end t} - dom (subheader_scope t)))
       \<and> (\<forall>r \<in> {data_start t..data_end t} - dom (subheader_scope t).
             (\<exists>s \<in> dom (subheader_scope t). s < r) \<longrightarrow>
             (\<exists>!s. \<exists>rows. subheader_scope t s = Some (Rows rows) \<and> r \<in> set rows))"
proof -
  from range_index_labels [OF lab] have lt: "\<forall>l \<in> set frame. line_label l < int (length frame)"
    by blast
  from discovered_ordered_above [OF disc wp lt]
  have ord: "ordered_above t" and top: "top_boundary t = off"
    and de: "data_end t < int (length frame)" by auto
  from ord top have b: "off \<le> data_start t" "data_start t \<le> data_end t"
    by (auto simp: ordered_above_def)
  from ns have empty: "scope_before pr (data_end t) = Map.empty"
    and srt: "sorted_wrt (<) (scoped_sub_headers pr (data_end t) @ scoped_candidates pr (data_end t))"
    by (auto simp: nothing_scoped_def)
  note last = last_of_slice [OF lab off b de]
  from disc sc show ?thesis
  proof (rule discovered_scope)
    fix P
    assume s: "subheader_scope t
       = assign_scopes P (scope_before pr (data_end t))
           (line_label (last (filter (\<lambda>l. data_start t \<le> line_label l \<and> line_label l \<le> data_end t)
                                 (filter (\<lambda>l. off \<le> line_label l) frame))))"
      and P: "set P \<subseteq> {data_start t..data_end t}"
      and sP: "sorted_wrt (<) (scoped_sub_headers pr (data_end t) @ scoped_candidates pr (data_end t))
                 \<Longrightarrow> sorted_wrt (<) P"
    from s have s': "subheader_scope t = assign_scopes P Map.empty (data_end t)"
      unfolding last empty .
    from assign_scopes_partition [OF sP [OF srt] P s']
    have d: "dom (subheader_scope t) = set P"
      and rest: "(\<forall>s v. subheader_scope t s = Some v \<longrightarrow>
             (\<exists>rows. v = Rows rows \<and> set rows \<subseteq> {data_start t..data_end t} - set P))
       \<and> (\<forall>r \<in> {data_start t..data_end t} - set P.
             (\<exists>s \<in> set P. s < r) \<longrightarrow>
             (\<exists>!s. \<exists>rows. subheader_scope t s = Some (Rows rows) \<and> r \<in> set rows))"
      by blast+
    from rest show ?thesis unfolding d .
  qed
qed

text \<open>
  C9 (amended). The helper \<^verbatim>\<open>discover_aggregation_scope\<close> is taken to return only rows
  among the candidates it is passed, the frame to be indexed from 0 to its number of rows
  less one, and the predictions to meet \<open>well_predicted\<close>. Then, in every table record
  \<^verbatim>\<open>extract_tables\<close> returns, merged or not, the keys of \<^verbatim>\<open>subheader_scope\<close> lie in
  \<open>[data_start, data_end]\<close>. In a record as \<^verbatim>\<open>discover_next_table\<close> returns it, which is
  what \<^verbatim>\<open>extract_tables\<close> emits when it does not merge, if the helper has assigned no scope
  and the subheaders and candidates it returns are in strictly increasing order, every
  scope is a list of rows of \<open>[data_start, data_end]\<close> that are not keys, and every row of
  the interval that is not a key and lies below some key is in the scope of exactly one
  key.
\<close>

theorem subheader_scopes_emitted:
  assumes lab: "map line_label frame = [0..int (length frame) - 1]"
    and wp: "\<forall>off k. well_predicted (int (length frame)) off (predict off k)"
    and sc: "\<forall>off k. scoped_among_candidates (predict off k)"
  shows "(\<forall>fuel tables k t.
            extract_tables fuel frame blank_lines predict = Some (Inr tables) \<and> tables k = Some t
            \<longrightarrow> dom (subheader_scope t) \<subseteq> {data_start t..data_end t})
       \<and> (\<forall>off k seen t seen'.
            0 \<le> off
            \<and> discover_next_table frame off blank_lines seen (predict off k) = Inr (Some t, seen')
            \<and> nothing_scoped (predict off k) (data_end t)
            \<longrightarrow> (\<forall>s v. subheader_scope t s = Some v \<longrightarrow>
                    (\<exists>rows. v = Rows rows
                       \<and> set rows \<subseteq> {data_start t..data_end t} - dom (subheader_scope t)))
                \<and> (\<forall>r \<in> {data_start t..data_end t} - dom (subheader_scope t).
                      (\<exists>s \<in> dom (subheader_scope t). s < r) \<longrightarrow>
                      (\<exists>!s. \<exists>rows. subheader_scope t s = Some (Rows rows) \<and> r \<in> set rows)))"
proof (rule conjI)
  show "\<forall>fuel tables k t.
            extract_tables fuel frame blank_lines predict = Some (Inr tables) \<and> tables k = Some t
            \<longrightarrow> dom (subheader_scope t) \<subseteq> {data_start t..data_end t}"
  proof (intro allI impI)
    fix fuel tables k t
    assume "extract_tables fuel frame blank_lines predict = Some (Inr tables) \<and> tables k = Some t"
    then have run: "extract_tables fuel frame blank_lines predict = Some (Inr tables)"
      and t: "tables k = Some t" by auto
    from emitted_keys_in_data [OF run wp sc range_index_labels [OF lab] t]
    show "dom (subheader_scope t) \<subseteq> {data_start t..data_end t}"
      by (simp add: keys_in_data_def)
  qed
next
  have part: "(\<forall>s v. subheader_scope t s = Some v \<longrightarrow>
                    (\<exists>rows. v = Rows rows
                       \<and> set rows \<subseteq> {data_start t..data_end t} - dom (subheader_scope t)))
                \<and> (\<forall>r \<in> {data_start t..data_end t} - dom (subheader_scope t).
                      (\<exists>s \<in> dom (subheader_scope t). s < r) \<longrightarrow>
                      (\<exists>!s. \<exists>rows. subheader_scope t s = Some (Rows rows) \<and> r \<in> set rows))"
    if "0 \<le> off
            \<and> discover_next_table frame off blank_lines seen (predict off k) = Inr (Some t, seen')
            \<and> nothing_scoped (predict off k) (data_end t)"
    for off k seen t seen'
  proof -
    from that have off: "0 \<le> off"
      and disc: "discover_next_table frame off blank_lines seen (predict off k)
                   = Inr (Some t, seen')"
      and ns: "nothing_scoped (predict off k) (data_end t)" by auto
    from discovered_partition [OF disc wp [rule_format] sc [rule_format] lab off ns]
    show ?thesis .
  qed
  show "\<forall>off k seen t seen'.
            0 \<le> off
            \<and> discover_next_table frame off blank_lines seen (predict off k) = Inr (Some t, seen')
            \<and> nothing_scoped (predict off k) (data_end t)
            \<longrightarrow> (\<forall>s v. subheader_scope t s = Some v \<longrightarrow>
                    (\<exists>rows. v = Rows rows
                       \<and> set rows \<subseteq> {data_start t..data_end t} - dom (subheader_scope t)))
                \<and> (\<forall>r \<in> {data_start t..data_end t} - dom (subheader_scope t).
                      (\<exists>s \<in> dom (subheader_scope t). s < r) \<longrightarrow>
                      (\<exists>!s. \<exists>rows. subheader_scope t s = Some (Rows rows) \<and> r \<in> set rows))"
    using part by blast
qed


text \<open>
  The run on the four-row frame: the keys of the scope of its table lie among the data
  rows 1 to 3, and row 3, which lies below the subheader 2, is in exactly one scope.
\<close>

theorem subheader_scopes_emitted_witness:
  "extract_tables 2 ex_frame [] ex_predict = Some (Inr [1 \<mapsto> ex_found])
   \<and> dom (subheader_scope ex_found) \<subseteq> {data_start ex_found..data_end ex_found}
   \<and> discover_next_table ex_frame 0 [] [] (ex_predict 0 1) = Inr (Some ex_found, [(0, ''x,1'')])
   \<and> nothing_scoped (ex_predict 0 1) (data_end ex_found)
   \<and> subheader_scope ex_found 2 = Some (Rows [3])
   \<and> (\<exists>!s. \<exists>rows. subheader_scope ex_found s = Some (Rows rows) \<and> 3 \<in> set rows)"
proof -
  have lab: "map line_label ex_frame = [0..int (length ex_frame) - 1]"
    by (simp add: ex_frame_def ex_row_label ex_group_row_facts upto.simps)
  have sc: "\<forall>off k. scoped_among_candidates (ex_predict off k)"
    by (auto simp: scoped_among_candidates_def candidates_in_data_def set_range_list
        data_section_start_def ex_predict_def ex_env_def)
  note inst = subheader_scopes_emitted [OF lab ex_well_predicted sc, of "[]"]
  have f: "data_start ex_found = 1" "data_end ex_found = 3"
    "subheader_scope ex_found = [2 \<mapsto> Rows [3]]"
    by (simp_all add: ex_found_def)
  have ns: "nothing_scoped (ex_predict 0 1) (data_end ex_found)"
    by (simp add: nothing_scoped_def ex_predict_def f)
  have run: "extract_tables 2 ex_frame [] ex_predict = Some (Inr [1 \<mapsto> ex_found])
               \<and> [1 \<mapsto> ex_found] (1::nat) = Some ex_found"
    using ex_run by simp
  from inst [THEN conjunct1, THEN spec [where x = 2], THEN spec [where x = "[1 \<mapsto> ex_found]"],
      THEN spec [where x = 1], THEN spec [where x = ex_found], THEN mp, OF run]
  have a: "dom (subheader_scope ex_found) \<subseteq> {data_start ex_found..data_end ex_found}" .
  have disc: "0 \<le> (0::int)
       \<and> discover_next_table ex_frame 0 [] [] (ex_predict 0 1) = Inr (Some ex_found, [(0, ''x,1'')])
       \<and> nothing_scoped (ex_predict 0 1) (data_end ex_found)"
    using ex_first_table [of 1] ns by simp
  note b = inst [THEN conjunct2, THEN spec [where x = 0], THEN spec [where x = 1],
      THEN spec [where x = "[]"], THEN spec [where x = ex_found],
      THEN spec [where x = "[(0, ''x,1'')]"], THEN mp, OF disc, THEN conjunct2]
  have r: "3 \<in> {data_start ex_found..data_end ex_found} - dom (subheader_scope ex_found)"
    by (simp add: f)
  have above: "\<exists>s \<in> dom (subheader_scope ex_found). s < 3" by (simp add: f)
  from b [THEN bspec, OF r, THEN mp, OF above]
  have u: "\<exists>!s. \<exists>rows. subheader_scope ex_found s = Some (Rows rows) \<and> 3 \<in> set rows" .
  have v: "subheader_scope ex_found 2 = Some (Rows [3])" by (simp add: f)
  from ex_run a disc ns v u show ?thesis by blast
qed

end
